theory Spec2Isabelle
  imports Complex_Main "HOL-Library.AList"
begin

section \<open>Data model\<close>

text \<open>
  The program builds a \<^verbatim>\<open>networkx.DiGraph\<close>. The model keeps what the generators
  read and write of it: the nodes in insertion order, the directed edges with their
  \<^verbatim>\<open>weight\<close> attribute, and the node attribute \<^verbatim>\<open>group\<close>.
  An edge attribute dictionary either has no key \<^verbatim>\<open>weight\<close>, or holds
  Python's \<^verbatim>\<open>None\<close> under it, or a number.
\<close>

datatype error = ValueError string | ZeroDivisionError | KeyError | TypeError | NetworkXError

datatype attr = NoWeight | WeightNone | Weight real

record graph =
  nodes :: "int list"
  edges :: "((int \<times> int) \<times> attr) list"
  node_group :: "(int \<times> int) list"

definition empty_graph :: graph where
  "empty_graph = \<lparr>nodes = [], edges = [], node_group = []\<rparr>"

definition add_node :: "graph \<Rightarrow> int \<Rightarrow> graph" where
  "add_node G v = (if v \<in> set (nodes G) then G else G\<lparr>nodes := nodes G @ [v]\<rparr>)"

definition add_nodes_from :: "graph \<Rightarrow> int list \<Rightarrow> graph" where
  "add_nodes_from G vs = fold (\<lambda>v H. add_node H v) vs G"

definition has_edge :: "graph \<Rightarrow> int \<Rightarrow> int \<Rightarrow> bool" where
  "has_edge G u v = (map_of (edges G) (u, v) \<noteq> None)"

text \<open>
  \<^verbatim>\<open>G.add_edge(u, v)\<close> adds missing end points to the node set and keeps the
  attributes of an edge that is already there; \<^verbatim>\<open>G.add_edge(u, v, weight=w)\<close>
  also stores \<open>w\<close> under the key \<^verbatim>\<open>weight\<close>, whatever \<open>w\<close> is.
\<close>

definition add_edge :: "graph \<Rightarrow> int \<Rightarrow> int \<Rightarrow> graph" where
  "add_edge G u v =
     (let H = add_node (add_node G u) v
      in if has_edge H u v then H else H\<lparr>edges := edges H @ [((u, v), NoWeight)]\<rparr>)"

definition add_edge_weight :: "graph \<Rightarrow> int \<Rightarrow> int \<Rightarrow> attr \<Rightarrow> graph" where
  "add_edge_weight G u v w =
     (let H = add_node (add_node G u) v
      in H\<lparr>edges := AList.update (u, v) w (edges H)\<rparr>)"

text \<open>\<^verbatim>\<open>G[i][j]['weight'] += 1\<close>: a missing edge or key raises KeyError, None raises TypeError.\<close>

definition incr_weight :: "graph \<Rightarrow> int \<Rightarrow> int \<Rightarrow> error + graph" where
  "incr_weight G u v =
     (case map_of (edges G) (u, v) of
        None \<Rightarrow> Inl KeyError
      | Some NoWeight \<Rightarrow> Inl KeyError
      | Some WeightNone \<Rightarrow> Inl TypeError
      | Some (Weight w) \<Rightarrow> Inr (G\<lparr>edges := AList.update (u, v) (Weight (w + 1)) (edges G)\<rparr>))"

text \<open>\<^verbatim>\<open>dict(G.degree())\<close>: in-degree plus out-degree of every node, in node order.\<close>

definition degree :: "graph \<Rightarrow> (int \<times> int) list" where
  "degree G =
     map (\<lambda>v. (v, int (length (filter (\<lambda>e. fst (fst e) = v) (edges G)))
                 + int (length (filter (\<lambda>e. snd (fst e) = v) (edges G)))))
         (nodes G)"

definition number_of_nodes :: "graph \<Rightarrow> nat" where
  "number_of_nodes G = length (nodes G)"

definition number_of_edges :: "graph \<Rightarrow> nat" where
  "number_of_edges G = length (edges G)"

text \<open>\<^verbatim>\<open>range(n)\<close> and \<^verbatim>\<open>range(a, b)\<close> over Python's unbounded integers.\<close>

definition py_range :: "int \<Rightarrow> int list" where
  "py_range n = [0..n - 1]"

definition py_range2 :: "int \<Rightarrow> int \<Rightarrow> int list" where
  "py_range2 a b = [a..b - 1]"

section \<open>The random source\<close>

text \<open>
  The program draws from Python's module-level generator. The model makes the stream
  explicit: the stream \<open>s\<close> is the sequence of the successive results of
  \<^verbatim>\<open>random.random()\<close>, the state of the source is the number of draws made so far,
  and every call consumes one element.
  \<^verbatim>\<open>random.uniform(a, b)\<close> is \<^verbatim>\<open>a + (b - a) * random()\<close> as in the
  standard library. \<^verbatim>\<open>random.randrange(n)\<close> raises ValueError on an empty range and
  otherwise scales the next element to \<open>{0..<n}\<close>, so that every outcome of the three
  calls is the image of some stream. Floats are read as reals.
\<close>

type_synonym stream = "nat \<Rightarrow> real"

type_synonym rng = nat

definition unit_stream :: "stream \<Rightarrow> bool" where
  "unit_stream s = (\<forall>k. 0 \<le> s k \<and> s k < 1)"

definition rnd_random :: "stream \<Rightarrow> rng \<Rightarrow> real \<times> rng" where
  "rnd_random s g = (s g, Suc g)"

definition rnd_uniform :: "stream \<Rightarrow> real \<Rightarrow> real \<Rightarrow> rng \<Rightarrow> real \<times> rng" where
  "rnd_uniform s a b g = (a + (b - a) * s g, Suc g)"

definition rnd_randrange :: "stream \<Rightarrow> int \<Rightarrow> rng \<Rightarrow> error + (int \<times> rng)" where
  "rnd_randrange s n g =
     (if n \<le> 0 then Inl (ValueError ''empty range for randrange()'')
      else Inr (\<lfloor>s g * real_of_int n\<rfloor>, Suc g))"

section \<open>Loops\<close>

text \<open>A \<^verbatim>\<open>for\<close> loop whose body may raise: the first error ends the loop.\<close>

fun for_each :: "('a \<Rightarrow> 's \<Rightarrow> error + 's) \<Rightarrow> 'a list \<Rightarrow> 's \<Rightarrow> error + 's" where
  "for_each body [] s = Inr s"
| "for_each body (x # xs) s =
     (case body x s of Inl e \<Rightarrow> Inl e | Inr s' \<Rightarrow> for_each body xs s')"

text \<open>A \<^verbatim>\<open>for\<close> loop whose body may fail to return.\<close>

fun for_each_opt :: "('a \<Rightarrow> 's \<Rightarrow> 's option) \<Rightarrow> 'a list \<Rightarrow> 's \<Rightarrow> 's option" where
  "for_each_opt body [] s = Some s"
| "for_each_opt body (x # xs) s =
     (case body x s of None \<Rightarrow> None | Some s' \<Rightarrow> for_each_opt body xs s')"

section \<open>Random linking\<close>

text \<open>
  \<^verbatim>\<open>generate_random_graph\<close>. The state of the dynamic inner loop is the graph, the
  counter \<^verbatim>\<open>edges_added\<close> and the random source; the printed line of a step is
  recorded as its count. The one line that a static run prints repeats its arguments and
  is not recorded. The function returns the graph; the model returns with it the recorded
  lines and the state of the random source.
\<close>

definition random_visit ::
  "stream \<Rightarrow> int \<Rightarrow> real \<Rightarrow> bool \<Rightarrow> int \<Rightarrow> graph \<times> nat \<times> rng \<Rightarrow> error + (graph \<times> nat \<times> rng)" where
  "random_visit s num_nodes p edge_weights i st =
     (case st of (G, edges_added, g) \<Rightarrow>
       (case rnd_random s g of (u, g1) \<Rightarrow>
         if u < p then
           (case rnd_randrange s num_nodes g1 of
              Inl e \<Rightarrow> Inl e
            | Inr (j, g2) \<Rightarrow>
                if j = i then Inr (G, edges_added, g2)
                else if has_edge G i j then
                  (if edge_weights then
                     (case incr_weight G i j of
                        Inl e \<Rightarrow> Inl e
                      | Inr G' \<Rightarrow> Inr (G', edges_added, g2))
                   else Inr (G, edges_added, g2))
                else
                  Inr (if edge_weights then add_edge_weight G i j (Weight 1)
                       else add_edge G i j,
                       edges_added + 1, g2))
         else Inr (G, edges_added, g1)))"

definition random_step ::
  "stream \<Rightarrow> int \<Rightarrow> real \<Rightarrow> bool \<Rightarrow> int \<Rightarrow> graph \<times> nat list \<times> rng \<Rightarrow> error + (graph \<times> nat list \<times> rng)" where
  "random_step s num_nodes p edge_weights t st =
     (case st of (G, out, g) \<Rightarrow>
       (case for_each (random_visit s num_nodes p edge_weights) (py_range num_nodes) (G, 0, g) of
          Inl e \<Rightarrow> Inl e
        | Inr (G', edges_added, g') \<Rightarrow> Inr (G', out @ [edges_added], g')))"

definition random_pair :: "stream \<Rightarrow> real \<Rightarrow> bool \<Rightarrow> int \<Rightarrow> int \<Rightarrow> graph \<times> rng \<Rightarrow> graph \<times> rng" where
  "random_pair s p edge_weights i j st =
     (case st of (G, g) \<Rightarrow>
       if i = j then (G, g)
       else (case rnd_random s g of (u, g1) \<Rightarrow>
         if u < p then
           (if edge_weights then
              (case rnd_random s g1 of (w, g2) \<Rightarrow> (add_edge_weight G i j (Weight w), g2))
            else (add_edge G i j, g1))
         else (G, g1)))"

definition generate_random_graph ::
  "stream \<Rightarrow> int \<Rightarrow> bool \<Rightarrow> int \<Rightarrow> real \<Rightarrow> bool \<Rightarrow> rng \<Rightarrow> error + (graph \<times> nat list \<times> rng)" where
  "generate_random_graph s num_nodes dynamic time_steps p edge_weights g =
     (let G = add_nodes_from empty_graph (py_range num_nodes)
      in if dynamic then
           for_each (random_step s num_nodes p edge_weights) (py_range2 1 (time_steps + 1)) (G, [], g)
         else
           (case fold (\<lambda>i. fold (random_pair s p edge_weights i) (py_range num_nodes))
                      (py_range num_nodes) (G, g) of
              (G', g') \<Rightarrow> Inr (G', [], g')))"

section \<open>Preferential attachment\<close>

text \<open>
  \<^verbatim>\<open>generate_preferential_attachment_graph\<close>. The inner \<^verbatim>\<open>for\<close> loop of the
  dynamic branch scans the degree dictionary, accumulating \<^verbatim>\<open>cum\<close>, and stops at
  the first node whose cumulated degree reaches \<open>r\<close>. The set \<^verbatim>\<open>targets\<close> is a
  duplicate-free list; the order in which Python iterates over a set is not modelled, the
  edges of one arrival all have distinct keys.
\<close>

fun scan_degrees :: "int \<Rightarrow> real \<Rightarrow> (int \<times> int) list \<Rightarrow> int \<Rightarrow> int list \<Rightarrow> int list" where
  "scan_degrees t r [] cum targets = targets"
| "scan_degrees t r ((node, deg) # rest) cum targets =
     (if r \<le> real_of_int (cum + deg) then
        (if node \<noteq> t then List.insert node targets else targets)
      else scan_degrees t r rest (cum + deg) targets)"

text \<open>
  The \<^verbatim>\<open>while\<close> loop draws until \<^verbatim>\<open>targets\<close> has \<^verbatim>\<open>edges_per_step\<close> members.
  Nothing bounds the number of its iterations, so a run that never leaves it is \<open>None\<close>.
\<close>

partial_function (option) select_targets ::
  "stream \<Rightarrow> int \<Rightarrow> int \<Rightarrow> (int \<times> int) list \<Rightarrow> int \<Rightarrow> int list \<times> rng \<Rightarrow> (int list \<times> rng) option" where
  "select_targets s edges_per_step t degrees total_degree st =
     (if int (length (fst st)) < edges_per_step then
        (case rnd_uniform s 0 (real_of_int total_degree) (snd st) of
           (r, g') \<Rightarrow>
             select_targets s edges_per_step t degrees total_degree
               (scan_degrees t r degrees 0 (fst st), g'))
      else Some st)"

declare select_targets.simps [code]

definition seed_pair :: "bool \<Rightarrow> int \<Rightarrow> int \<Rightarrow> graph \<Rightarrow> graph" where
  "seed_pair edge_weights u v G =
     (if u \<noteq> v then add_edge_weight G u v (if edge_weights then Weight 1 else WeightNone)
      else G)"

definition attach :: "bool \<Rightarrow> int \<Rightarrow> int \<Rightarrow> graph \<Rightarrow> graph" where
  "attach edge_weights t target G =
     (if edge_weights then add_edge_weight G t target (Weight 1) else add_edge G t target)"

text \<open>The printed line of an arrival is recorded as (step number, node, number of targets).\<close>

type_synonym pa_out = "(int \<times> int \<times> nat) list"

definition pa_arrival ::
  "stream \<Rightarrow> int \<Rightarrow> bool \<Rightarrow> int \<Rightarrow> int \<Rightarrow> graph \<times> pa_out \<times> rng \<Rightarrow> (graph \<times> pa_out \<times> rng) option" where
  "pa_arrival s edges_per_step edge_weights initial_nodes t st =
     (case st of (G, out, g) \<Rightarrow>
       (let G1 = add_node G t;
            degrees = degree G1;
            total_degree = sum_list (map snd degrees)
        in case select_targets s edges_per_step t degrees total_degree ([], g) of
             None \<Rightarrow> None
           | Some (targets, g') \<Rightarrow>
               Some (fold (attach edge_weights t) targets G1,
                     out @ [(t - initial_nodes + 1, t, length targets)], g')))"

definition ba_edge :: "stream \<Rightarrow> bool \<Rightarrow> int \<times> int \<Rightarrow> graph \<times> rng \<Rightarrow> graph \<times> rng" where
  "ba_edge s edge_weights e st =
     (case e of (u, v) \<Rightarrow> case st of (G, g) \<Rightarrow>
       if edge_weights then
         (case rnd_random s g of (w1, g1) \<Rightarrow>
            case rnd_random s g1 of (w2, g2) \<Rightarrow>
              (add_edge_weight (add_edge_weight G u v (Weight w1)) v u (Weight w2), g2))
       else (add_edge_weight (add_edge_weight G u v WeightNone) v u WeightNone, g))"

text \<open>
  \<^verbatim>\<open>nx.barabasi_albert_graph\<close> belongs to the networkx library. It is a parameter
  \<open>ba\<close> of the model: called with the number of nodes and \<open>m\<close> it either raises or
  returns an undirected graph, given by its nodes and its edges.
\<close>

type_synonym ba_graph = "int list \<times> (int \<times> int) list"

definition generate_preferential_attachment_graph ::
  "stream \<Rightarrow> (int \<Rightarrow> int \<Rightarrow> error + ba_graph) \<Rightarrow> int \<Rightarrow> bool \<Rightarrow> int \<Rightarrow> int \<Rightarrow> bool \<Rightarrow> rng
     \<Rightarrow> (error + (graph \<times> pa_out \<times> rng)) option" where
  "generate_preferential_attachment_graph s ba num_nodes dynamic time_steps edges_per_step
       edge_weights g =
     (if dynamic then
        (let initial_nodes = edges_per_step + 1;
             G0 = add_nodes_from empty_graph (py_range initial_nodes);
             G1 = fold (\<lambda>u. fold (seed_pair edge_weights u) (py_range initial_nodes))
                       (py_range initial_nodes) G0
         in case for_each_opt (pa_arrival s edges_per_step edge_weights initial_nodes)
                   (py_range2 initial_nodes num_nodes) (G1, [], g) of
              None \<Rightarrow> None
            | Some st \<Rightarrow> Some (Inr st))
      else
        (case ba num_nodes edges_per_step of
           Inl e \<Rightarrow> Some (Inl e)
         | Inr (ba_nodes, ba_edges) \<Rightarrow>
             (case fold (ba_edge s edge_weights) ba_edges
                        (add_nodes_from empty_graph ba_nodes, g) of
                (G, g') \<Rightarrow> Some (Inr (G, [], g')))))"

section \<open>Homophily\<close>

text \<open>
  \<^verbatim>\<open>generate_homophily_graph\<close>. The block that reinforces or creates the edge
  \<open>(i, j)\<close> is written twice in the source, once under each probability; it is
  \<open>homophily_link\<close> here. The dictionary \<^verbatim>\<open>groups\<close> is an association list.
\<close>

definition homophily_link ::
  "bool \<Rightarrow> int \<Rightarrow> int \<Rightarrow> graph \<times> nat \<Rightarrow> error + (graph \<times> nat)" where
  "homophily_link edge_weights i j st =
     (case st of (G, edges_added) \<Rightarrow>
       if has_edge G i j then
         (if edge_weights then
            (case incr_weight G i j of
               Inl e \<Rightarrow> Inl e
             | Inr G' \<Rightarrow> Inr (G', edges_added))
          else Inr (G, edges_added))
       else Inr (add_edge_weight G i j (if edge_weights then Weight 1 else WeightNone),
                 edges_added + 1))"

definition homophily_visit ::
  "stream \<Rightarrow> int \<Rightarrow> (int \<times> int) list \<Rightarrow> real \<Rightarrow> real \<Rightarrow> bool \<Rightarrow> int \<Rightarrow> graph \<times> nat \<times> rng
     \<Rightarrow> error + (graph \<times> nat \<times> rng)" where
  "homophily_visit s num_nodes groups p_in p_out edge_weights i st =
     (case st of (G, edges_added, g) \<Rightarrow>
       (case rnd_randrange s num_nodes g of
          Inl e \<Rightarrow> Inl e
        | Inr (j, g1) \<Rightarrow>
            if j = i then Inr (G, edges_added, g1)
            else
              (case map_of groups i of
                 None \<Rightarrow> Inl KeyError
               | Some gi \<Rightarrow>
                   (case map_of groups j of
                      None \<Rightarrow> Inl KeyError
                    | Some gj \<Rightarrow>
                        if gi = gj then
                          (case rnd_random s g1 of (u, g2) \<Rightarrow>
                             if u < p_in then
                               (case homophily_link edge_weights i j (G, edges_added) of
                                  Inl e \<Rightarrow> Inl e
                                | Inr (G', c) \<Rightarrow> Inr (G', c, g2))
                             else Inr (G, edges_added, g2))
                        else
                          (case rnd_random s g1 of (u, g2) \<Rightarrow>
                             if u < p_out then
                               (case homophily_link edge_weights i j (G, edges_added) of
                                  Inl e \<Rightarrow> Inl e
                                | Inr (G', c) \<Rightarrow> Inr (G', c, g2))
                             else Inr (G, edges_added, g2))))))"

definition homophily_step ::
  "stream \<Rightarrow> int \<Rightarrow> (int \<times> int) list \<Rightarrow> real \<Rightarrow> real \<Rightarrow> bool \<Rightarrow> int \<Rightarrow> graph \<times> nat list \<times> rng
     \<Rightarrow> error + (graph \<times> nat list \<times> rng)" where
  "homophily_step s num_nodes groups p_in p_out edge_weights t st =
     (case st of (G, out, g) \<Rightarrow>
       (case for_each (homophily_visit s num_nodes groups p_in p_out edge_weights)
               (py_range num_nodes) (G, 0, g) of
          Inl e \<Rightarrow> Inl e
        | Inr (G', edges_added, g') \<Rightarrow> Inr (G', out @ [edges_added], g')))"

definition homophily_pair ::
  "stream \<Rightarrow> (int \<times> int) list \<Rightarrow> real \<Rightarrow> real \<Rightarrow> bool \<Rightarrow> int \<Rightarrow> int \<Rightarrow> graph \<times> rng
     \<Rightarrow> error + (graph \<times> rng)" where
  "homophily_pair s groups p_in p_out edge_weights i j st =
     (case st of (G, g) \<Rightarrow>
       if i = j then Inr (G, g)
       else
         (case map_of groups i of
            None \<Rightarrow> Inl KeyError
          | Some gi \<Rightarrow>
              (case map_of groups j of
                 None \<Rightarrow> Inl KeyError
               | Some gj \<Rightarrow>
                   if gi = gj then
                     (case rnd_random s g of (u, g1) \<Rightarrow>
                        if u < p_in then
                          (if edge_weights then
                             (case rnd_random s g1 of (w, g2) \<Rightarrow>
                                Inr (add_edge_weight G i j (Weight w), g2))
                           else Inr (add_edge_weight G i j WeightNone, g1))
                        else Inr (G, g1))
                   else
                     (case rnd_random s g of (u, g1) \<Rightarrow>
                        if u < p_out then
                          (if edge_weights then
                             (case rnd_random s g1 of (w, g2) \<Rightarrow>
                                Inr (add_edge_weight G i j (Weight w), g2))
                           else Inr (add_edge_weight G i j WeightNone, g1))
                        else Inr (G, g1)))))"

text \<open>
  The dictionary comprehension evaluates \<^verbatim>\<open>i % homophily_groups\<close> for every node,
  before the branch on \<^verbatim>\<open>dynamic\<close>: with at least one node and no group it raises
  ZeroDivisionError. Python's \<^verbatim>\<open>%\<close> on integers is \<open>mod\<close> on \<open>int\<close>.
\<close>

definition generate_homophily_graph ::
  "stream \<Rightarrow> int \<Rightarrow> bool \<Rightarrow> int \<Rightarrow> int \<Rightarrow> real \<Rightarrow> real \<Rightarrow> bool \<Rightarrow> rng
     \<Rightarrow> error + (graph \<times> nat list \<times> rng)" where
  "generate_homophily_graph s num_nodes dynamic time_steps homophily_groups p_in p_out
       edge_weights g =
     (let G = add_nodes_from empty_graph (py_range num_nodes)
      in if homophily_groups = 0 \<and> py_range num_nodes \<noteq> [] then Inl ZeroDivisionError
         else
           (let groups = map (\<lambda>i. (i, i mod homophily_groups)) (py_range num_nodes);
                G1 = G\<lparr>node_group := groups\<rparr>
            in if dynamic then
                 for_each (homophily_step s num_nodes groups p_in p_out edge_weights)
                   (py_range2 1 (time_steps + 1)) (G1, [], g)
               else
                 (case for_each
                         (\<lambda>i. for_each (homophily_pair s groups p_in p_out edge_weights i)
                                 (py_range num_nodes))
                         (py_range num_nodes) (G1, g) of
                    Inl e \<Rightarrow> Inl e
                  | Inr (G', g') \<Rightarrow> Inr (G', [], g'))))"

section \<open>Configuration and dispatch\<close>

text \<open>
  \<^verbatim>\<open>main\<close> reads the configuration with \<^verbatim>\<open>config.get(key, default)\<close>. The mapping
  is a record with one optional field per key the program reads, each of the type the
  program uses it at. Writing the output file is the last effect of \<^verbatim>\<open>main\<close>; the
  model returns the file name together with the graph that is written to it.
\<close>

record config =
  cfg_num_agents :: "int option"
  cfg_linking_strategy :: "string option"
  cfg_strategy :: "string option"
  cfg_time_steps :: "int option"
  cfg_dynamic :: "bool option"
  cfg_edge_weights :: "bool option"
  cfg_output_format :: "string option"
  cfg_p :: "real option"
  cfg_edges_per_step :: "int option"
  cfg_homophily_groups :: "int option"
  cfg_p_in :: "real option"
  cfg_p_out :: "real option"

definition get :: "'a option \<Rightarrow> 'a \<Rightarrow> 'a" where
  "get field dflt = (case field of None \<Rightarrow> dflt | Some v \<Rightarrow> v)"

text \<open>
  \<^verbatim>\<open>str.lower()\<close> on the ASCII letters. \<open>save\<close> is the choice of the output file:
  an unrecognised format falls back to \<^verbatim>\<open>network.graphml\<close>.
\<close>

definition lower :: "string \<Rightarrow> string" where
  "lower cs =
     map (\<lambda>c. let n = (of_char c :: nat) in if 65 \<le> n \<and> n \<le> 90 then char_of (n + 32) else c) cs"

definition save :: "graph \<Rightarrow> string \<Rightarrow> string \<times> graph" where
  "save G output_format =
     (if output_format = ''graphml'' \<or> output_format = ''gexf'' \<or> output_format = ''png''
      then (''network.'' @ output_format, G)
      else (''network.graphml'', G))"

definition main ::
  "stream \<Rightarrow> (int \<Rightarrow> int \<Rightarrow> error + ba_graph) \<Rightarrow> config \<Rightarrow> rng \<Rightarrow> (error + (string \<times> graph)) option" where
  "main s ba cfg g =
     (let num_nodes = get (cfg_num_agents cfg) 100;
          strategy = get (cfg_linking_strategy cfg) (get (cfg_strategy cfg) ''random'');
          time_steps = get (cfg_time_steps cfg) 1;
          dynamic = get (cfg_dynamic cfg) False;
          edge_weights = get (cfg_edge_weights cfg) False;
          output_format = lower (get (cfg_output_format cfg) ''graphml'')
      in if strategy = ''random'' then
           (case generate_random_graph s num_nodes dynamic time_steps (get (cfg_p cfg) (1/10))
                   edge_weights g of
              Inl e \<Rightarrow> Some (Inl e)
            | Inr (G, out, g') \<Rightarrow> Some (Inr (save G output_format)))
         else if strategy = ''preferential_attachment'' \<or> strategy = ''preferential'' then
           (case generate_preferential_attachment_graph s ba num_nodes dynamic time_steps
                   (get (cfg_edges_per_step cfg) 1) edge_weights g of
              None \<Rightarrow> None
            | Some (Inl e) \<Rightarrow> Some (Inl e)
            | Some (Inr (G, out, g')) \<Rightarrow> Some (Inr (save G output_format)))
         else if strategy = ''homophily'' then
           (case generate_homophily_graph s num_nodes dynamic time_steps
                   (get (cfg_homophily_groups cfg) 2) (get (cfg_p_in cfg) (1/10))
                   (get (cfg_p_out cfg) (1/100)) edge_weights g of
              Inl e \<Rightarrow> Some (Inl e)
            | Inr (G, out, g') \<Rightarrow> Some (Inr (save G output_format)))
         else Some (Inl (ValueError (''Unknown linking_strategy: '' @ strategy))))"

section \<open>Predicates on graphs and on the base graph\<close>

definition self_loop_free :: "graph \<Rightarrow> bool" where
  "self_loop_free G = list_all (\<lambda>e. fst (fst e) \<noteq> snd (fst e)) (edges G)"

text \<open>The base graph returned by the library call, if any, has no edge from a node to itself.\<close>

definition simple_base :: "error + ba_graph \<Rightarrow> bool" where
  "simple_base r = (case r of Inl e \<Rightarrow> True | Inr (ns, es) \<Rightarrow> list_all (\<lambda>e. fst e \<noteq> snd e) es)"

text \<open>
  A stand-in for the library call on concrete inputs: the star around node 0, with the
  library's argument check (\<open>m < 1\<close> or \<open>m \<ge> n\<close> raises).
\<close>

definition star_base :: "int \<Rightarrow> int \<Rightarrow> error + ba_graph" where
  "star_base n m =
     (if m < 1 \<or> m \<ge> n then Inl NetworkXError
      else Inr ([0..n - 1], map (\<lambda>k. (0, k)) [1..n - 1]))"

section \<open>Configurations\<close>

text \<open>The configuration mapping with no key.\<close>

definition empty_config :: config where
  "empty_config = \<lparr>cfg_num_agents = None, cfg_linking_strategy = None, cfg_strategy = None,
     cfg_time_steps = None, cfg_dynamic = None, cfg_edge_weights = None,
     cfg_output_format = None, cfg_p = None, cfg_edges_per_step = None,
     cfg_homophily_groups = None, cfg_p_in = None, cfg_p_out = None\<rparr>"

section \<open>Groups\<close>

text \<open>
  With node \<open>i\<close> in group \<open>i mod hg\<close>: every edge joins two nodes of one group, or
  every edge joins two nodes of different groups.
\<close>

definition within_groups :: "int \<Rightarrow> graph \<Rightarrow> bool" where
  "within_groups hg G = list_all (\<lambda>e. fst (fst e) mod hg = snd (fst e) mod hg) (edges G)"

definition across_groups :: "int \<Rightarrow> graph \<Rightarrow> bool" where
  "across_groups hg G = list_all (\<lambda>e. fst (fst e) mod hg \<noteq> snd (fst e) mod hg) (edges G)"

section \<open>Edges created by a step\<close>

text \<open>
  The step from \<open>G\<close> to \<open>G'\<close> keeps the edges of \<open>G\<close> in place and appends the edges
  \<open>new\<close>, none of which was in \<open>G\<close>, and \<open>k\<close> is their number.
\<close>

definition creates :: "graph \<Rightarrow> graph \<Rightarrow> (int \<times> int) list \<Rightarrow> bool" where
  "creates G G' new =
     (map fst (edges G') = map fst (edges G) @ new \<and> distinct new \<and>
      list_all (\<lambda>k. \<not> has_edge G (fst k) (snd k)) new)"

text \<open>The counter of a state is \<open>c\<close> plus the number of edges created since \<open>G\<close>.\<close>

definition counted :: "graph \<Rightarrow> nat \<Rightarrow> graph \<times> nat \<times> rng \<Rightarrow> bool" where
  "counted G c st = (\<exists>new. creates G (fst st) new \<and> fst (snd st) = c + length new)"

section \<open>Edge weights\<close>

text \<open>
  What a generator leaves on an edge. With \<open>edge_weights\<close> the attribute is a number,
  at least 1 in dynamic mode and in \<open>[0, 1)\<close> in static mode; without, it is not a
  number: the key is missing or holds \<^verbatim>\<open>None\<close>.
\<close>

definition edge_ok :: "bool \<Rightarrow> bool \<Rightarrow> attr \<Rightarrow> bool" where
  "edge_ok dynamic edge_weights a =
     (case a of
        Weight w \<Rightarrow> edge_weights \<and> (if dynamic then 1 \<le> w else 0 \<le> w \<and> w < 1)
      | _ \<Rightarrow> \<not> edge_weights)"

definition weights_ok :: "bool \<Rightarrow> bool \<Rightarrow> graph \<Rightarrow> bool" where
  "weights_ok dynamic edge_weights G =
     list_all (\<lambda>e. edge_ok dynamic edge_weights (snd e)) (edges G)"

text \<open>Every edge of the graph carries an attribute of the set \<open>A\<close>.\<close>

definition carries :: "attr set \<Rightarrow> graph \<Rightarrow> bool" where
  "carries A G = list_all (\<lambda>e. snd e \<in> A) (edges G)"

text \<open>
  Dynamic preferential attachment without weights: an edge that leaves one of the first
  \<open>m + 1\<close> nodes, the seed clique, holds \<^verbatim>\<open>None\<close>; an edge that leaves a later node,
  an arrival, has no attribute.
\<close>

definition seed_split :: "int \<Rightarrow> graph \<Rightarrow> bool" where
  "seed_split m G =
     list_all (\<lambda>e. snd e = (if fst (fst e) \<le> m then WeightNone else NoWeight)) (edges G)"

text \<open>
  A state of a static run that started at draw \<open>g\<close>: every edge carries one of the draws
  made since.
\<close>

definition drawn :: "stream \<Rightarrow> rng \<Rightarrow> graph \<times> rng \<Rightarrow> bool" where
  "drawn s g a = (g \<le> snd a \<and> carries (Weight ` s ` {g..<snd a}) (fst a))"

text \<open>The invariant as the specification words it: a weight that is a number is above 0.\<close>

definition positive_weights :: "graph \<Rightarrow> bool" where
  "positive_weights G = list_all (\<lambda>e. case snd e of Weight w \<Rightarrow> 0 < w | _ \<Rightarrow> True) (edges G)"

section \<open>Selections\<close>

text \<open>
  The pair that a visit of node \<open>i\<close> selects, if any, and the state of the random source
  after the visit: the draws of \<open>random_visit\<close> and of \<open>homophily_visit\<close>, without the
  graph. A selection is a pair \<open>(i, j)\<close> with \<open>j \<noteq> i\<close> that has passed the test on the
  probability; it creates the edge or reinforces it.
\<close>

definition random_choice ::
  "stream \<Rightarrow> int \<Rightarrow> real \<Rightarrow> int \<Rightarrow> rng \<Rightarrow> (int \<times> int) option \<times> rng" where
  "random_choice s num_nodes p i g =
     (case rnd_random s g of (u, g1) \<Rightarrow>
        if u < p then
          (case rnd_randrange s num_nodes g1 of
             Inl e \<Rightarrow> (None, g1)
           | Inr (j, g2) \<Rightarrow> (if j = i then None else Some (i, j), g2))
        else (None, g1))"

definition homophily_choice ::
  "stream \<Rightarrow> int \<Rightarrow> int \<Rightarrow> real \<Rightarrow> real \<Rightarrow> int \<Rightarrow> rng \<Rightarrow> (int \<times> int) option \<times> rng" where
  "homophily_choice s num_nodes homophily_groups p_in p_out i g =
     (case rnd_randrange s num_nodes g of
        Inl e \<Rightarrow> (None, g)
      | Inr (j, g1) \<Rightarrow>
          if j = i then (None, g1)
          else (case rnd_random s g1 of (u, g2) \<Rightarrow>
                  (if u < (if i mod homophily_groups = j mod homophily_groups then p_in else p_out)
                   then Some (i, j) else None, g2)))"

text \<open>The selections of one step, in order, and of the first \<open>k\<close> steps of a run.\<close>

fun selections ::
  "(int \<Rightarrow> rng \<Rightarrow> (int \<times> int) option \<times> rng) \<Rightarrow> int list \<Rightarrow> rng \<Rightarrow> (int \<times> int) list \<times> rng" where
  "selections choice [] g = ([], g)"
| "selections choice (i # is) g =
     (case choice i g of (c, g1) \<Rightarrow>
        case selections choice is g1 of (cs, g2) \<Rightarrow>
          (case c of None \<Rightarrow> cs | Some e \<Rightarrow> e # cs, g2))"

fun run_selections ::
  "(int \<Rightarrow> rng \<Rightarrow> (int \<times> int) option \<times> rng) \<Rightarrow> int list \<Rightarrow> nat \<Rightarrow> rng
     \<Rightarrow> (int \<times> int) list \<times> rng" where
  "run_selections choice is 0 g = ([], g)"
| "run_selections choice is (Suc k) g =
     (case selections choice is g of (cs, g1) \<Rightarrow>
        case run_selections choice is k g1 of (ds, g2) \<Rightarrow> (cs @ ds, g2))"

text \<open>
  The attribute of an edge that has been selected \<open>k\<close> times: none if \<open>k = 0\<close>,
  otherwise 1 for the creation plus 1 for each of the \<open>k - 1\<close> re-selections.
\<close>

definition reinforced :: "nat \<Rightarrow> attr option" where
  "reinforced k = (if k = 0 then None else Some (Weight (1 + real (k - 1))))"

text \<open>The number on an edge, 0 for an edge that is absent or carries no number.\<close>

definition weight_of :: "graph \<Rightarrow> int \<times> int \<Rightarrow> real" where
  "weight_of G e = (case map_of (edges G) e of Some (Weight w) \<Rightarrow> w | _ \<Rightarrow> 0)"

text \<open>
  Every edge of \<open>G\<close> carries the number that \<open>cnt\<close> selections leave on it, and
  \<open>bump\<close> records one more selection.
\<close>

definition tallies :: "graph \<Rightarrow> (int \<times> int \<Rightarrow> nat) \<Rightarrow> bool" where
  "tallies G cnt = (\<forall>e. map_of (edges G) e = reinforced (cnt e))"

definition bump :: "(int \<times> int) option \<Rightarrow> (int \<times> int \<Rightarrow> nat) \<Rightarrow> int \<times> int \<Rightarrow> nat" where
  "bump c cnt = (case c of None \<Rightarrow> cnt | Some e \<Rightarrow> cnt(e := Suc (cnt e)))"

section \<open>Nodes\<close>

text \<open>
  The base graph that the library returns for \<open>n\<close> nodes: the nodes \<open>0, \<dots>, n - 1\<close> and
  edges between them.
\<close>

definition base_on :: "int \<Rightarrow> error + ba_graph \<Rightarrow> bool" where
  "base_on n r =
     (case r of
        Inl e \<Rightarrow> False
      | Inr (ns, es) \<Rightarrow> ns = [0..n - 1] \<and> list_all (\<lambda>e. fst e \<in> set ns \<and> snd e \<in> set ns) es)"

text \<open>Every edge of the graph joins two of its nodes.\<close>

definition closed :: "graph \<Rightarrow> bool" where
  "closed G = list_all (\<lambda>e. fst (fst e) \<in> set (nodes G) \<and> snd (fst e) \<in> set (nodes G)) (edges G)"

section \<open>Loop invariants\<close>

lemma for_each_inv:
  assumes "for_each body xs s = Inr s'" and "P s"
    and "\<And>x a b. x \<in> set xs \<Longrightarrow> P a \<Longrightarrow> body x a = Inr b \<Longrightarrow> P b"
  shows "P s'"
  using assms
proof (induction xs arbitrary: s)
  case Nil
  then show ?case by simp
next
  case (Cons x xs)
  from Cons.prems(1) obtain s1 where b: "body x s = Inr s1" and r: "for_each body xs s1 = Inr s'"
    by (auto split: sum.splits)
  have "P s1" using Cons.prems(3)[OF _ Cons.prems(2) b] by simp
  show ?case by (rule Cons.IH[OF r \<open>P s1\<close>]) (use Cons.prems(3) in auto)
qed

lemma for_each_opt_inv:
  assumes "for_each_opt body xs s = Some s'" and "P s"
    and "\<And>x a b. x \<in> set xs \<Longrightarrow> P a \<Longrightarrow> body x a = Some b \<Longrightarrow> P b"
  shows "P s'"
  using assms
proof (induction xs arbitrary: s)
  case Nil
  then show ?case by simp
next
  case (Cons x xs)
  from Cons.prems(1) obtain s1 where b: "body x s = Some s1" and r: "for_each_opt body xs s1 = Some s'"
    by (auto split: option.splits)
  have "P s1" using Cons.prems(3)[OF _ Cons.prems(2) b] by simp
  show ?case by (rule Cons.IH[OF r \<open>P s1\<close>]) (use Cons.prems(3) in auto)
qed

lemma fold_inv:
  assumes "P s" and "\<And>x a. x \<in> set xs \<Longrightarrow> P a \<Longrightarrow> P (f x a)"
  shows "P (fold f xs s)"
  using assms by (induction xs arbitrary: s) auto

section \<open>No self-loops\<close>

lemma edges_add_node [simp]: "edges (add_node G v) = edges G"
  by (simp add: add_node_def)

lemma edges_add_nodes_from [simp]: "edges (add_nodes_from G vs) = edges G"
  unfolding add_nodes_from_def by (induction vs arbitrary: G) auto

lemma keys_add_edge: "fst ` set (edges (add_edge G u v)) = insert (u, v) (fst ` set (edges G))"
  by (auto simp: add_edge_def Let_def has_edge_def map_of_eq_None_iff)

lemma keys_add_edge_weight:
  "fst ` set (edges (add_edge_weight G u v w)) = insert (u, v) (fst ` set (edges G))"
  by (simp add: add_edge_weight_def Let_def dom_update)

lemma keys_incr_weight:
  "incr_weight G u v = Inr G' \<Longrightarrow> fst ` set (edges G') = fst ` set (edges G)"
proof -
  assume a: "incr_weight G u v = Inr G'"
  then obtain w where m: "map_of (edges G) (u, v) = Some (Weight w)"
    and G': "G' = G\<lparr>edges := AList.update (u, v) (Weight (w + 1)) (edges G)\<rparr>"
    by (auto simp: incr_weight_def split: option.splits attr.splits)
  from m have "(u, v) \<in> fst ` set (edges G)"
    by (metis map_of_eq_None_iff option.distinct(1))
  then show ?thesis
    by (auto simp: G' dom_update)
qed

lemma self_loop_free_iff: "self_loop_free G \<longleftrightarrow> (\<forall>k \<in> fst ` set (edges G). fst k \<noteq> snd k)"
  by (auto simp: self_loop_free_def list_all_iff)

lemma slf_add_edge: "u \<noteq> v \<Longrightarrow> self_loop_free G \<Longrightarrow> self_loop_free (add_edge G u v)"
  by (simp add: self_loop_free_iff keys_add_edge)

lemma slf_add_edge_weight:
  "u \<noteq> v \<Longrightarrow> self_loop_free G \<Longrightarrow> self_loop_free (add_edge_weight G u v w)"
  by (simp add: self_loop_free_iff keys_add_edge_weight)

lemma slf_incr_weight: "incr_weight G u v = Inr G' \<Longrightarrow> self_loop_free G \<Longrightarrow> self_loop_free G'"
  by (simp add: self_loop_free_iff keys_incr_weight)

lemma slf_add_nodes_from [simp]: "self_loop_free (add_nodes_from G vs) = self_loop_free G"
  by (simp add: self_loop_free_def)

lemma slf_empty [simp]: "self_loop_free empty_graph"
  by (simp add: self_loop_free_def empty_graph_def)

lemma slf_random_visit:
  "random_visit s n p ew i st = Inr st' \<Longrightarrow> self_loop_free (fst st) \<Longrightarrow> self_loop_free (fst st')"
  by (cases st rule: prod_cases3)
     (auto simp: random_visit_def rnd_random_def slf_add_edge slf_add_edge_weight
      split: if_splits sum.splits prod.splits dest: slf_incr_weight)

lemma slf_random_step:
  assumes "random_step s n p ew t st = Inr st'" and "self_loop_free (fst st)"
  shows "self_loop_free (fst st')"
proof -
  obtain G out g where st: "st = (G, out, g)" by (cases st rule: prod_cases3)
  from assms(1) obtain G' c g' where
    r: "for_each (random_visit s n p ew) (py_range n) (G, 0, g) = Inr (G', c, g')"
    and st': "st' = (G', out @ [c], g')"
    by (auto simp: random_step_def st split: sum.splits)
  have "self_loop_free (fst (G', c, g'))"
  proof (rule for_each_inv[OF r, where P = "\<lambda>s. self_loop_free (fst s)"])
    show "self_loop_free (fst (G, 0::nat, g))" using assms(2) st by simp
  qed (rule slf_random_visit)
  then show ?thesis by (simp add: st')
qed

lemma slf_random_pair: "self_loop_free (fst st) \<Longrightarrow> self_loop_free (fst (random_pair s p ew i j st))"
  by (cases st)
     (auto simp: random_pair_def rnd_random_def slf_add_edge slf_add_edge_weight
      split: prod.splits)

lemma slf_random:
  assumes "generate_random_graph s n dyn ts p ew g = Inr (G, out, g')"
  shows "self_loop_free G"
proof (cases dyn)
  case True
  with assms have r: "for_each (random_step s n p ew) (py_range2 1 (ts + 1))
      (add_nodes_from empty_graph (py_range n), [], g) = Inr (G, out, g')"
    by (simp add: generate_random_graph_def)
  have "self_loop_free (fst (G, out, g'))"
  proof (rule for_each_inv[OF r, where P = "\<lambda>s. self_loop_free (fst s)"])
    show "self_loop_free (fst (add_nodes_from empty_graph (py_range n), []::nat list, g))"
      by simp
  qed (rule slf_random_step)
  then show ?thesis by simp
next
  case False
  have "self_loop_free (fst (fold (\<lambda>i. fold (random_pair s p ew i) (py_range n)) (py_range n)
      (add_nodes_from empty_graph (py_range n), g)))"
  proof (rule fold_inv[where P = "\<lambda>s. self_loop_free (fst s)"])
    show "self_loop_free (fst (add_nodes_from empty_graph (py_range n), g))" by simp
  next
    fix i and a :: "graph \<times> rng" assume "self_loop_free (fst a)"
    then show "self_loop_free (fst (fold (random_pair s p ew i) (py_range n) a))"
      by (rule fold_inv[where P = "\<lambda>s. self_loop_free (fst s)"]) (rule slf_random_pair)
  qed
  with False assms show ?thesis
    by (auto simp: generate_random_graph_def split: prod.splits)
qed

lemma slf_node_group [simp]: "self_loop_free (G\<lparr>node_group := x\<rparr>) = self_loop_free G"
  by (simp add: self_loop_free_def)

lemma slf_homophily_link:
  "homophily_link ew i j st = Inr st' \<Longrightarrow> i \<noteq> j \<Longrightarrow> self_loop_free (fst st)
     \<Longrightarrow> self_loop_free (fst st')"
  by (cases st)
     (auto simp: homophily_link_def slf_add_edge_weight split: if_splits sum.splits
      dest: slf_incr_weight)

lemma slf_homophily_visit:
  assumes "homophily_visit s n groups p_in p_out ew i st = Inr st'" and "self_loop_free (fst st)"
  shows "self_loop_free (fst st')"
proof -
  obtain G c g where st: "st = (G, c, g)" by (cases st rule: prod_cases3)
  show ?thesis
  proof (cases "rnd_randrange s n g")
    case (Inl e)
    with assms show ?thesis by (simp add: homophily_visit_def st)
  next
    case (Inr jg)
    obtain j g1 where jg: "jg = (j, g1)" by (cases jg)
    show ?thesis
    proof (cases "j = i")
      case True
      with assms Inr jg show ?thesis by (auto simp: homophily_visit_def st)
    next
      case False
      then have ij: "i \<noteq> j" by simp
      from assms(1) Inr jg False
      have "st' = (G, c, snd (rnd_random s g1)) \<or>
            (\<exists>G' c'. homophily_link ew i j (G, c) = Inr (G', c') \<and> st' = (G', c', snd (rnd_random s g1)))"
        by (auto simp: homophily_visit_def st split: option.splits prod.splits if_splits sum.splits)
      then show ?thesis
        using slf_homophily_link[OF _ ij, of ew "(G, c)"] assms(2) st by auto
    qed
  qed
qed

lemma slf_homophily_step:
  assumes "homophily_step s n groups p_in p_out ew t st = Inr st'" and "self_loop_free (fst st)"
  shows "self_loop_free (fst st')"
proof -
  obtain G out g where st: "st = (G, out, g)" by (cases st rule: prod_cases3)
  from assms(1) obtain G' c g' where
    r: "for_each (homophily_visit s n groups p_in p_out ew) (py_range n) (G, 0, g) = Inr (G', c, g')"
    and st': "st' = (G', out @ [c], g')"
    by (auto simp: homophily_step_def st split: sum.splits)
  have "self_loop_free (fst (G', c, g'))"
  proof (rule for_each_inv[OF r, where P = "\<lambda>s. self_loop_free (fst s)"])
    show "self_loop_free (fst (G, 0::nat, g))" using assms(2) st by simp
  qed (rule slf_homophily_visit)
  then show ?thesis by (simp add: st')
qed

lemma slf_homophily_pair:
  "homophily_pair s groups p_in p_out ew i j st = Inr st' \<Longrightarrow> self_loop_free (fst st)
     \<Longrightarrow> self_loop_free (fst st')"
  by (cases st)
     (auto simp: homophily_pair_def rnd_random_def slf_add_edge_weight
      split: if_splits option.splits prod.splits)

lemma slf_homophily:
  assumes "generate_homophily_graph s n dyn ts hg p_in p_out ew g = Inr (G, out, g')"
  shows "self_loop_free G"
proof -
  let ?groups = "map (\<lambda>i. (i, i mod hg)) (py_range n)"
  let ?G1 = "(add_nodes_from empty_graph (py_range n))\<lparr>node_group := ?groups\<rparr>"
  have G1: "self_loop_free ?G1" by simp
  show ?thesis
  proof (cases dyn)
    case True
    with assms have r: "for_each (homophily_step s n ?groups p_in p_out ew) (py_range2 1 (ts + 1))
        (?G1, [], g) = Inr (G, out, g')"
      by (simp add: generate_homophily_graph_def Let_def split: if_splits)
    have "self_loop_free (fst (G, out, g'))"
    proof (rule for_each_inv[OF r, where P = "\<lambda>s. self_loop_free (fst s)"])
      show "self_loop_free (fst (?G1, []::nat list, g))" using G1 by simp
    qed (rule slf_homophily_step)
    then show ?thesis by simp
  next
    case False
    with assms have r: "for_each (\<lambda>i. for_each (homophily_pair s ?groups p_in p_out ew i) (py_range n))
        (py_range n) (?G1, g) = Inr (G, g')"
      by (simp add: generate_homophily_graph_def Let_def split: if_splits sum.splits prod.splits)
    have "self_loop_free (fst (G, g'))"
    proof (rule for_each_inv[OF r, where P = "\<lambda>s. self_loop_free (fst s)"])
      show "self_loop_free (fst (?G1, g))" using G1 by simp
    next
      fix i and a b :: "graph \<times> rng"
      assume a: "self_loop_free (fst a)"
        and b: "for_each (homophily_pair s ?groups p_in p_out ew i) (py_range n) a = Inr b"
      show "self_loop_free (fst b)"
        by (rule for_each_inv[OF b, where P = "\<lambda>s. self_loop_free (fst s)", OF a])
           (rule slf_homophily_pair)
    qed
    then show ?thesis by simp
  qed
qed

lemma scan_degrees_avoids:
  "t \<notin> set targets \<Longrightarrow> t \<notin> set (scan_degrees t r ds cum targets)"
  by (induction t r ds cum targets rule: scan_degrees.induct) auto

lemma select_targets_avoids:
  assumes "select_targets s m t ds tot st = Some st'" and "t \<notin> set (fst st)"
  shows "t \<notin> set (fst st')"
proof -
  have "t \<notin> set (fst st) \<longrightarrow> t \<notin> set (fst st')"
  proof (rule select_targets.raw_induct[OF _ assms(1),
        where P = "\<lambda>s m t ds tot st st'. t \<notin> set (fst st) \<longrightarrow> t \<notin> set (fst st')"])
    fix sel :: "stream \<Rightarrow> int \<Rightarrow> int \<Rightarrow> (int \<times> int) list \<Rightarrow> int \<Rightarrow> int list \<times> rng \<Rightarrow> (int list \<times> rng) option"
    fix z :: stream and k u and es :: "(int \<times> int) list" and n :: int and a b :: "int list \<times> rng"
    assume IH: "\<And>s k u es n a b. sel s k u es n a = Some b \<Longrightarrow> u \<notin> set (fst a) \<longrightarrow> u \<notin> set (fst b)"
      and eq: "(if int (length (fst a)) < k
                then case rnd_uniform z 0 (real_of_int n) (snd a) of
                       (r, g') \<Rightarrow> sel z k u es n (scan_degrees u r es 0 (fst a), g')
                else Some a) = Some b"
    show "u \<notin> set (fst a) \<longrightarrow> u \<notin> set (fst b)"
    proof (cases "int (length (fst a)) < k")
      case True
      with eq have
        "sel z k u es n
           (scan_degrees u (fst (rnd_uniform z 0 (real_of_int n) (snd a))) es 0 (fst a),
            snd (rnd_uniform z 0 (real_of_int n) (snd a))) = Some b"
        by (simp split: prod.splits)
      from IH[OF this] show ?thesis
        by (simp add: scan_degrees_avoids)
    next
      case False
      with eq show ?thesis by simp
    qed
  qed
  with assms(2) show ?thesis by simp
qed

lemma slf_attach:
  "t \<notin> set targets \<Longrightarrow> self_loop_free G \<Longrightarrow> self_loop_free (fold (attach ew t) targets G)"
  by (induction targets arbitrary: G) (auto simp: attach_def slf_add_edge slf_add_edge_weight)

lemma slf_add_node [simp]: "self_loop_free (add_node G v) = self_loop_free G"
  by (simp add: self_loop_free_def)

lemma slf_pa_arrival:
  assumes "pa_arrival s m ew init t st = Some st'" and "self_loop_free (fst st)"
  shows "self_loop_free (fst st')"
proof -
  obtain G out g where st: "st = (G, out, g)" by (cases st rule: prod_cases3)
  let ?G1 = "add_node G t"
  from assms(1) obtain targets g' where
    sel: "select_targets s m t (degree ?G1) (sum_list (map snd (degree ?G1))) ([], g)
            = Some (targets, g')"
    and st': "fst st' = fold (attach ew t) targets ?G1"
    by (auto simp: pa_arrival_def st Let_def split: option.splits)
  from select_targets_avoids[OF sel] have "t \<notin> set targets" by simp
  then show ?thesis using assms(2) by (simp add: st' st slf_attach)
qed

lemma slf_seed_pair: "self_loop_free G \<Longrightarrow> self_loop_free (seed_pair ew u v G)"
  by (simp add: seed_pair_def slf_add_edge_weight)

lemma slf_ba_edge:
  "fst e \<noteq> snd e \<Longrightarrow> self_loop_free (fst st) \<Longrightarrow> self_loop_free (fst (ba_edge s ew e st))"
  by (cases e; cases st)
     (auto simp: ba_edge_def rnd_random_def slf_add_edge_weight split: prod.splits)

lemma slf_preferential:
  assumes "generate_preferential_attachment_graph s ba n dyn ts m ew g = Some (Inr (G, out, g'))"
    and "\<not> dyn \<Longrightarrow> \<forall>ns es. ba n m = Inr (ns, es) \<longrightarrow> list_all (\<lambda>e. fst e \<noteq> snd e) es"
  shows "self_loop_free G"
proof (cases dyn)
  case True
  let ?init = "m + 1"
  let ?G1 = "fold (\<lambda>u. fold (seed_pair ew u) (py_range ?init)) (py_range ?init)
               (add_nodes_from empty_graph (py_range ?init))"
  have G1: "self_loop_free ?G1"
  proof (rule fold_inv[where P = self_loop_free])
    show "self_loop_free (add_nodes_from empty_graph (py_range ?init))" by simp
  next
    fix u a assume "self_loop_free a"
    then show "self_loop_free (fold (seed_pair ew u) (py_range ?init) a)"
      by (rule fold_inv[where P = self_loop_free]) (rule slf_seed_pair)
  qed
  from True assms(1) have r: "for_each_opt (pa_arrival s m ew ?init) (py_range2 ?init n)
      (?G1, [], g) = Some (G, out, g')"
    by (simp add: generate_preferential_attachment_graph_def Let_def split: option.splits)
  have "self_loop_free (fst (G, out, g'))"
  proof (rule for_each_opt_inv[OF r, where P = "\<lambda>s. self_loop_free (fst s)"])
    show "self_loop_free (fst (?G1, []::pa_out, g))" using G1 by simp
  qed (rule slf_pa_arrival)
  then show ?thesis by simp
next
  case False
  with assms(1) obtain ns es where ba: "ba n m = Inr (ns, es)"
    and r: "fold (ba_edge s ew) es (add_nodes_from empty_graph ns, g) = (G, g')"
    by (auto simp: generate_preferential_attachment_graph_def split: sum.splits prod.splits)
  from assms(2)[OF False] ba have es: "\<forall>e \<in> set es. fst e \<noteq> snd e"
    by (simp add: list_all_iff)
  have "self_loop_free (fst (fold (ba_edge s ew) es (add_nodes_from empty_graph ns, g)))"
  proof (rule fold_inv[where P = "\<lambda>s. self_loop_free (fst s)"])
    show "self_loop_free (fst (add_nodes_from empty_graph ns, g))" by simp
  next
    fix e and a :: "graph \<times> rng"
    assume "e \<in> set es" "self_loop_free (fst a)"
    then show "self_loop_free (fst (ba_edge s ew e a))" using es by (simp add: slf_ba_edge)
  qed
  then show ?thesis by (simp add: r)
qed

text \<open>
  C1. No graph returned by \<open>generate_random_graph\<close>, \<open>generate_homophily_graph\<close> or
  \<open>generate_preferential_attachment_graph\<close>, in static or dynamic mode, for any parameters
  and any random stream, has an edge from a node to itself. In static preferential
  attachment the edges are those of the library's base graph, taken in both directions, so
  the base graph is assumed to have no such edge.
\<close>

theorem no_self_loops:
  "(generate_random_graph s n dyn ts p ew g = Inr (G1, out1, g1) \<longrightarrow> self_loop_free G1) \<and>
   (generate_homophily_graph s n dyn ts hg p_in p_out ew g = Inr (G2, out2, g2)
      \<longrightarrow> self_loop_free G2) \<and>
   (dyn \<or> simple_base (ba n m) \<longrightarrow>
      generate_preferential_attachment_graph s ba n dyn ts m ew g = Some (Inr (G3, out3, g3))
      \<longrightarrow> self_loop_free G3)"
proof (intro conjI impI)
  assume "generate_random_graph s n dyn ts p ew g = Inr (G1, out1, g1)"
  then show "self_loop_free G1" by (rule slf_random)
next
  assume "generate_homophily_graph s n dyn ts hg p_in p_out ew g = Inr (G2, out2, g2)"
  then show "self_loop_free G2" by (rule slf_homophily)
next
  assume b: "dyn \<or> simple_base (ba n m)"
    and r: "generate_preferential_attachment_graph s ba n dyn ts m ew g = Some (Inr (G3, out3, g3))"
  show "self_loop_free G3"
  proof (rule slf_preferential[OF r])
    assume "\<not> dyn"
    with b show "\<forall>ns es. ba n m = Inr (ns, es) \<longrightarrow> list_all (\<lambda>e. fst e \<noteq> snd e) es"
      by (auto simp: simple_base_def)
  qed
qed

theorem no_self_loops_witness:
  "generate_random_graph (\<lambda>k. 1/3) 3 False 1 (1/2) True 0
     = Inr (\<lparr>nodes = [0, 1, 2],
             edges = [((0, 1), Weight (1/3)), ((0, 2), Weight (1/3)), ((1, 0), Weight (1/3)),
                      ((1, 2), Weight (1/3)), ((2, 0), Weight (1/3)), ((2, 1), Weight (1/3))],
             node_group = []\<rparr>, [], 12) \<and>
   self_loop_free \<lparr>nodes = [0, 1, 2],
             edges = [((0, 1), Weight (1/3)), ((0, 2), Weight (1/3)), ((1, 0), Weight (1/3)),
                      ((1, 2), Weight (1/3)), ((2, 0), Weight (1/3)), ((2, 1), Weight (1/3))],
             node_group = []\<rparr> \<and>
   generate_homophily_graph (\<lambda>k. 1/3) 3 False 1 2 (1/2) (1/4) True 0
     = Inr (\<lparr>nodes = [0, 1, 2],
             edges = [((0, 2), Weight (1/3)), ((2, 0), Weight (1/3))],
             node_group = [(0, 0), (1, 1), (2, 0)]\<rparr>, [], 8) \<and>
   self_loop_free \<lparr>nodes = [0, 1, 2],
             edges = [((0, 2), Weight (1/3)), ((2, 0), Weight (1/3))],
             node_group = [(0, 0), (1, 1), (2, 0)]\<rparr> \<and>
   simple_base (star_base 3 1) \<and>
   generate_preferential_attachment_graph (\<lambda>k. 1/3) star_base 3 False 1 1 True 0
     = Some (Inr (\<lparr>nodes = [0, 1, 2],
             edges = [((0, 1), Weight (1/3)), ((1, 0), Weight (1/3)),
                      ((0, 2), Weight (1/3)), ((2, 0), Weight (1/3))],
             node_group = []\<rparr>, [], 4)) \<and>
   self_loop_free \<lparr>nodes = [0, 1, 2],
             edges = [((0, 1), Weight (1/3)), ((1, 0), Weight (1/3)),
                      ((0, 2), Weight (1/3)), ((2, 0), Weight (1/3))],
             node_group = []\<rparr>"
proof -
  have h1: "generate_random_graph (\<lambda>k. 1/3) 3 False 1 (1/2) True 0
     = Inr (\<lparr>nodes = [0, 1, 2],
             edges = [((0, 1), Weight (1/3)), ((0, 2), Weight (1/3)), ((1, 0), Weight (1/3)),
                      ((1, 2), Weight (1/3)), ((2, 0), Weight (1/3)), ((2, 1), Weight (1/3))],
             node_group = []\<rparr>, [], 12)"
    by code_simp
  have h2: "generate_homophily_graph (\<lambda>k. 1/3) 3 False 1 2 (1/2) (1/4) True 0
     = Inr (\<lparr>nodes = [0, 1, 2],
             edges = [((0, 2), Weight (1/3)), ((2, 0), Weight (1/3))],
             node_group = [(0, 0), (1, 1), (2, 0)]\<rparr>, [], 8)"
    by code_simp
  have h3: "simple_base (star_base 3 1)"
    by code_simp
  have h4: "generate_preferential_attachment_graph (\<lambda>k. 1/3) star_base 3 False 1 1 True 0
     = Some (Inr (\<lparr>nodes = [0, 1, 2],
             edges = [((0, 1), Weight (1/3)), ((1, 0), Weight (1/3)),
                      ((0, 2), Weight (1/3)), ((2, 0), Weight (1/3))],
             node_group = []\<rparr>, [], 4))"
    by code_simp
  from no_self_loops[of "\<lambda>k. 1/3" 3 False 1 "1/2" True 0 _ "[]" 12 2 "1/2" "1/4" _ "[]" 8
      star_base 1 _ "[]" 4] h1 h2 h3 h4
  show ?thesis by (simp only: simp_thms)
qed

section \<open>The argument \<open>time_steps\<close> of preferential attachment\<close>

lemma pa_out_length:
  "for_each_opt (pa_arrival s m ew init) xs st = Some st'
     \<Longrightarrow> length (fst (snd st')) = length (fst (snd st)) + length xs"
proof (induction xs arbitrary: st)
  case Nil
  then show ?case by simp
next
  case (Cons x xs)
  from Cons.prems obtain st1 where a: "pa_arrival s m ew init x st = Some st1"
    and r: "for_each_opt (pa_arrival s m ew init) xs st1 = Some st'"
    by (auto split: option.splits)
  from a have "length (fst (snd st1)) = Suc (length (fst (snd st)))"
    by (cases st rule: prod_cases3) (auto simp: pa_arrival_def Let_def split: option.splits)
  with Cons.IH[OF r] show ?case by simp
qed

text \<open>
  C9. \<open>generate_preferential_attachment_graph\<close> does not depend on \<open>time_steps\<close>: with
  the other arguments and the random stream equal, any two values of \<open>time_steps\<close> give
  the same result, in static and in dynamic mode. A dynamic run that returns has printed
  one line per arrival, \<open>num_agents - (edges_per_step + 1)\<close> of them (none if that is
  negative).
\<close>

theorem time_steps_ignored:
  "generate_preferential_attachment_graph s ba n dyn ts m ew g
     = generate_preferential_attachment_graph s ba n dyn ts' m ew g \<and>
   (generate_preferential_attachment_graph s ba n True ts m ew g = Some (Inr (G, out, g'))
      \<longrightarrow> length out = nat (n - (m + 1)))"
proof (intro conjI impI)
  show "generate_preferential_attachment_graph s ba n dyn ts m ew g
     = generate_preferential_attachment_graph s ba n dyn ts' m ew g"
    by (simp add: generate_preferential_attachment_graph_def)
next
  assume "generate_preferential_attachment_graph s ba n True ts m ew g = Some (Inr (G, out, g'))"
  then obtain G1 where "for_each_opt (pa_arrival s m ew (m + 1)) (py_range2 (m + 1) n)
      (G1, [], g) = Some (G, out, g')"
    by (auto simp: generate_preferential_attachment_graph_def Let_def split: option.splits)
  from pa_out_length[OF this] show "length out = nat (n - (m + 1))"
    by (simp add: py_range2_def)
qed

theorem time_steps_ignored_witness:
  "generate_preferential_attachment_graph (\<lambda>k. 1/3) star_base 4 True 7 1 True 0
     = Some (Inr (\<lparr>nodes = [0, 1, 2, 3],
           edges = [((0, 1), Weight 1), ((1, 0), Weight 1), ((2, 0), Weight 1),
                    ((3, 0), Weight 1)],
           node_group = []\<rparr>, [(1, 2, 1), (2, 3, 1)], 2)) \<and>
   length [(1::int, 2::int, 1::nat), (2, 3, 1)] = nat (4 - (1 + 1))"
proof -
  have h: "generate_preferential_attachment_graph (\<lambda>k. 1/3) star_base 4 True 7 1 True 0
     = Some (Inr (\<lparr>nodes = [0, 1, 2, 3],
           edges = [((0, 1), Weight 1), ((1, 0), Weight 1), ((2, 0), Weight 1),
                    ((3, 0), Weight 1)],
           node_group = []\<rparr>, [(1, 2, 1), (2, 3, 1)], 2))"
    by code_simp
  from time_steps_ignored[of "\<lambda>k. 1/3" star_base 4 True 7 1 True 0 7 _ "[(1, 2, 1), (2, 3, 1)]" 2] h
  show ?thesis by (simp only: simp_thms)
qed

section \<open>Strategy dispatch\<close>

lemma main_unknown:
  assumes "x \<noteq> ''random''" "x \<noteq> ''preferential_attachment''" "x \<noteq> ''preferential''"
    "x \<noteq> ''homophily''"
    and "get (cfg_linking_strategy cfg) (get (cfg_strategy cfg) ''random'') = x"
  shows "main s ba cfg g = Some (Inl (ValueError (''Unknown linking_strategy: '' @ x)))"
  using assms unfolding main_def Let_def by simp

text \<open>
  C10. \<open>main\<close> dispatches on the key \<open>linking_strategy\<close>; when that key is absent it
  uses the key \<open>strategy\<close>, and when both are absent the default \<open>random\<close>; a present
  \<open>linking_strategy\<close> makes \<open>strategy\<close> irrelevant. A value from either key outside
  random, preferential_attachment, preferential and homophily makes \<open>main\<close> raise
  ValueError: no generator has run and no file is written.
\<close>

theorem strategy_dispatch:
  "(cfg_linking_strategy cfg = None \<longrightarrow>
      main s ba cfg g = main s ba (cfg\<lparr>cfg_linking_strategy := cfg_strategy cfg\<rparr>) g) \<and>
   (cfg_linking_strategy cfg = None \<longrightarrow> cfg_strategy cfg = None \<longrightarrow>
      main s ba cfg g = main s ba (cfg\<lparr>cfg_linking_strategy := Some ''random''\<rparr>) g) \<and>
   (cfg_linking_strategy cfg \<noteq> None \<longrightarrow>
      main s ba cfg g = main s ba (cfg\<lparr>cfg_strategy := y\<rparr>) g) \<and>
   (cfg_linking_strategy cfg = Some x \<or>
      (cfg_linking_strategy cfg = None \<and> cfg_strategy cfg = Some x) \<longrightarrow>
    x \<notin> {''random'', ''preferential_attachment'', ''preferential'', ''homophily''} \<longrightarrow>
      main s ba cfg g = Some (Inl (ValueError (''Unknown linking_strategy: '' @ x))))"
proof (intro conjI impI)
  assume "cfg_linking_strategy cfg = None"
  then show "main s ba cfg g = main s ba (cfg\<lparr>cfg_linking_strategy := cfg_strategy cfg\<rparr>) g"
    unfolding main_def by (cases "cfg_strategy cfg") (simp_all add: get_def cong: if_cong)
next
  assume "cfg_linking_strategy cfg = None" "cfg_strategy cfg = None"
  then show "main s ba cfg g = main s ba (cfg\<lparr>cfg_linking_strategy := Some ''random''\<rparr>) g"
    unfolding main_def by (simp add: get_def cong: if_cong)
next
  assume "cfg_linking_strategy cfg \<noteq> None"
  then show "main s ba cfg g = main s ba (cfg\<lparr>cfg_strategy := y\<rparr>) g"
    unfolding main_def by (auto simp: get_def cong: if_cong)
next
  assume a: "cfg_linking_strategy cfg = Some x \<or>
      (cfg_linking_strategy cfg = None \<and> cfg_strategy cfg = Some x)"
    and b: "x \<notin> {''random'', ''preferential_attachment'', ''preferential'', ''homophily''}"
  from a have "get (cfg_linking_strategy cfg) (get (cfg_strategy cfg) ''random'') = x"
    by (auto simp: get_def)
  with b show "main s ba cfg g = Some (Inl (ValueError (''Unknown linking_strategy: '' @ x)))"
    by (intro main_unknown) auto
qed

theorem strategy_dispatch_witness:
  "cfg_linking_strategy (empty_config\<lparr>cfg_strategy := Some ''bogus''\<rparr>) = None \<and>
   cfg_strategy (empty_config\<lparr>cfg_strategy := Some ''bogus''\<rparr>) = Some ''bogus'' \<and>
   ''bogus'' \<notin> {''random'', ''preferential_attachment'', ''preferential'', ''homophily''} \<and>
   main (\<lambda>k. 0) star_base (empty_config\<lparr>cfg_strategy := Some ''bogus''\<rparr>) 0
     = main (\<lambda>k. 0) star_base
         (empty_config\<lparr>cfg_strategy := Some ''bogus'', cfg_linking_strategy := Some ''bogus''\<rparr>) 0 \<and>
   main (\<lambda>k. 0) star_base (empty_config\<lparr>cfg_strategy := Some ''bogus''\<rparr>) 0
     = Some (Inl (ValueError ''Unknown linking_strategy: bogus'')) \<and>
   cfg_linking_strategy empty_config = None \<and> cfg_strategy empty_config = None \<and>
   main (\<lambda>k. 0) star_base empty_config 0
     = main (\<lambda>k. 0) star_base (empty_config\<lparr>cfg_linking_strategy := Some ''random''\<rparr>) 0 \<and>
   cfg_linking_strategy (empty_config\<lparr>cfg_linking_strategy := Some ''Random''\<rparr>) \<noteq> None \<and>
   ''Random'' \<notin> {''random'', ''preferential_attachment'', ''preferential'', ''homophily''} \<and>
   main (\<lambda>k. 0) star_base (empty_config\<lparr>cfg_linking_strategy := Some ''Random''\<rparr>) 0
     = main (\<lambda>k. 0) star_base
         (empty_config\<lparr>cfg_linking_strategy := Some ''Random'', cfg_strategy := Some ''homophily''\<rparr>) 0 \<and>
   main (\<lambda>k. 0) star_base (empty_config\<lparr>cfg_linking_strategy := Some ''Random''\<rparr>) 0
     = Some (Inl (ValueError ''Unknown linking_strategy: Random''))"
proof -
  let ?a = "empty_config\<lparr>cfg_strategy := Some ''bogus''\<rparr>"
  let ?b = "empty_config\<lparr>cfg_linking_strategy := Some ''Random''\<rparr>"
  have a: "cfg_linking_strategy ?a = None" "cfg_strategy ?a = Some ''bogus''"
    and e: "cfg_linking_strategy empty_config = None" "cfg_strategy empty_config = None"
    and b: "cfg_linking_strategy ?b = Some ''Random''"
    by (simp_all add: empty_config_def)
  have x: "''bogus'' \<notin> {''random'', ''preferential_attachment'', ''preferential'', ''homophily''}"
    "''Random'' \<notin> {''random'', ''preferential_attachment'', ''preferential'', ''homophily''}"
    by simp_all
  have c1: "main (\<lambda>k. 0) star_base ?a 0
      = main (\<lambda>k. 0) star_base (?a\<lparr>cfg_linking_strategy := Some ''bogus''\<rparr>) 0"
    using strategy_dispatch[of ?a "\<lambda>k. 0" star_base 0 None "''bogus''"] a(1)
    unfolding a(2) by blast
  have c2: "main (\<lambda>k. 0) star_base ?a 0 = Some (Inl (ValueError ''Unknown linking_strategy: bogus''))"
    using strategy_dispatch[of ?a "\<lambda>k. 0" star_base 0 None "''bogus''"] a x(1)
    unfolding append.simps by blast
  have c3: "main (\<lambda>k. 0) star_base empty_config 0
      = main (\<lambda>k. 0) star_base (empty_config\<lparr>cfg_linking_strategy := Some ''random''\<rparr>) 0"
    using strategy_dispatch[of empty_config "\<lambda>k. 0" star_base 0 None "''bogus''"] e by blast
  have b': "cfg_linking_strategy ?b \<noteq> None" using b by simp
  have c4: "main (\<lambda>k. 0) star_base ?b 0
      = main (\<lambda>k. 0) star_base (?b\<lparr>cfg_strategy := Some ''homophily''\<rparr>) 0"
    using strategy_dispatch[of ?b "\<lambda>k. 0" star_base 0 "Some ''homophily''" "''Random''"] b'
    by blast
  have c5: "main (\<lambda>k. 0) star_base ?b 0 = Some (Inl (ValueError ''Unknown linking_strategy: Random''))"
    using strategy_dispatch[of ?b "\<lambda>k. 0" star_base 0 None "''Random''"] b x(2)
    unfolding append.simps by blast
  show ?thesis
    by (intro conjI a e b' x c1 c2 c3 c4 c5)
qed

section \<open>Negative \<open>num_agents\<close>\<close>

lemma random_steps_negative:
  assumes "n < 0"
  shows "\<exists>out'. for_each (random_step s n p ew) xs (G, out, g) = Inr (G, out', g)"
  using assms by (induction xs arbitrary: out) (auto simp: random_step_def py_range_def)

lemma random_negative:
  assumes "n < 0"
  shows "\<exists>out. generate_random_graph s n dyn ts p ew g = Inr (empty_graph, out, g)"
proof (cases dyn)
  case True
  with random_steps_negative[OF assms, of s p ew "py_range2 1 (ts + 1)" empty_graph "[]" g] assms
  show ?thesis by (auto simp: generate_random_graph_def py_range_def add_nodes_from_def)
next
  case False
  with assms show ?thesis
    by (simp add: generate_random_graph_def py_range_def add_nodes_from_def)
qed

lemma homophily_steps_negative:
  assumes "n < 0"
  shows "\<exists>out'. for_each (homophily_step s n groups p_in p_out ew) xs (G, out, g)
           = Inr (G, out', g)"
  using assms by (induction xs arbitrary: out) (auto simp: homophily_step_def py_range_def)

lemma homophily_negative:
  assumes "n < 0"
  shows "\<exists>out. generate_homophily_graph s n dyn ts hg p_in p_out ew g = Inr (empty_graph, out, g)"
proof (cases dyn)
  case True
  with homophily_steps_negative[OF assms, of s "[]" p_in p_out ew "py_range2 1 (ts + 1)"
      empty_graph "[]" g] assms
  show ?thesis
    by (auto simp: generate_homophily_graph_def py_range_def add_nodes_from_def empty_graph_def)
next
  case False
  with assms show ?thesis
    by (simp add: generate_homophily_graph_def py_range_def add_nodes_from_def empty_graph_def)
qed

text \<open>
  C5, as amended. \<open>main\<close> does not validate \<open>num_agents\<close>: with a negative value and the
  random or the homophily strategy, whatever the other options are, it raises nothing and
  writes the graph with no node and no edge to the output file.
\<close>

theorem negative_num_agents_accepted:
  assumes "cfg_num_agents cfg = Some n" and "n < 0"
    and "get (cfg_linking_strategy cfg) (get (cfg_strategy cfg) ''random'') = ''random'' \<or>
         get (cfg_linking_strategy cfg) (get (cfg_strategy cfg) ''random'') = ''homophily''"
  shows "main s ba cfg g
     = Some (Inr (save empty_graph (lower (get (cfg_output_format cfg) ''graphml''))))"
proof -
  have n: "get (cfg_num_agents cfg) 100 = n" using assms(1) by (simp add: get_def)
  from assms(3) show ?thesis
  proof
    assume st: "get (cfg_linking_strategy cfg) (get (cfg_strategy cfg) ''random'') = ''random''"
    from random_negative[OF assms(2)] obtain out where
      "generate_random_graph s n (get (cfg_dynamic cfg) False) (get (cfg_time_steps cfg) 1)
         (get (cfg_p cfg) (1/10)) (get (cfg_edge_weights cfg) False) g = Inr (empty_graph, out, g)"
      by blast
    then show ?thesis unfolding main_def Let_def n st by simp
  next
    assume st: "get (cfg_linking_strategy cfg) (get (cfg_strategy cfg) ''random'') = ''homophily''"
    from homophily_negative[OF assms(2)] obtain out where
      "generate_homophily_graph s n (get (cfg_dynamic cfg) False) (get (cfg_time_steps cfg) 1)
         (get (cfg_homophily_groups cfg) 2) (get (cfg_p_in cfg) (1/10))
         (get (cfg_p_out cfg) (1/100)) (get (cfg_edge_weights cfg) False) g
       = Inr (empty_graph, out, g)"
      by blast
    then show ?thesis unfolding main_def Let_def n st by simp
  qed
qed

theorem negative_num_agents_accepted_witness:
  "cfg_num_agents (empty_config\<lparr>cfg_num_agents := Some (- 5), cfg_strategy := Some ''homophily'',
       cfg_output_format := Some ''GEXF''\<rparr>) = Some (- 5) \<and> (- 5 :: int) < 0 \<and>
   get (cfg_linking_strategy (empty_config\<lparr>cfg_num_agents := Some (- 5),
       cfg_strategy := Some ''homophily'', cfg_output_format := Some ''GEXF''\<rparr>))
     (get (cfg_strategy (empty_config\<lparr>cfg_num_agents := Some (- 5),
       cfg_strategy := Some ''homophily'', cfg_output_format := Some ''GEXF''\<rparr>)) ''random'')
     = ''homophily'' \<and>
   main (\<lambda>k. 0) star_base (empty_config\<lparr>cfg_num_agents := Some (- 5),
       cfg_strategy := Some ''homophily'', cfg_output_format := Some ''GEXF''\<rparr>) 0
     = Some (Inr (''network.gexf'', \<lparr>nodes = [], edges = [], node_group = []\<rparr>))"
proof -
  let ?c = "empty_config\<lparr>cfg_num_agents := Some (- 5), cfg_strategy := Some ''homophily'',
       cfg_output_format := Some ''GEXF''\<rparr>"
  have a: "cfg_num_agents ?c = Some (- 5)" by (simp add: empty_config_def)
  have b: "get (cfg_linking_strategy ?c) (get (cfg_strategy ?c) ''random'') = ''homophily''"
    by (simp add: empty_config_def get_def)
  have c: "save empty_graph (lower (get (cfg_output_format ?c) ''graphml''))
      = (''network.gexf'', \<lparr>nodes = [], edges = [], node_group = []\<rparr>)"
    by code_simp
  from negative_num_agents_accepted[OF a _ disjI2[OF b], of "\<lambda>k. 0" star_base 0] a b c
  show ?thesis by simp
qed

text \<open>
  C5 as stated fails: with \<open>num_agents = -5\<close> and every other key absent, \<open>main\<close>
  returns normally and writes the empty graph to \<open>network.graphml\<close>.
\<close>

theorem negative_num_agents_counterexample:
  "main (\<lambda>k. 0) star_base (empty_config\<lparr>cfg_num_agents := Some (- 5)\<rparr>) 0
     = Some (Inr (''network.graphml'', \<lparr>nodes = [], edges = [], node_group = []\<rparr>))"
  by code_simp

section \<open>Runs that add no edge\<close>

lemma for_each_Inr:
  assumes "P st" and "\<And>x a. x \<in> set xs \<Longrightarrow> P a \<Longrightarrow> \<exists>b. body x a = Inr b \<and> P b"
  shows "\<exists>st'. for_each body xs st = Inr st' \<and> P st'"
  using assms
proof (induction xs arbitrary: st)
  case Nil
  then show ?case by simp
next
  case (Cons x xs)
  from Cons.prems(2)[of x st] Cons.prems(1) obtain b where b: "body x st = Inr b" "P b"
    by auto
  have "\<exists>st'. for_each body xs b = Inr st' \<and> P st'"
    by (rule Cons.IH[OF b(2)]) (use Cons.prems(2) in auto)
  with b(1) show ?case by simp
qed

lemma map_of_groups:
  "map_of (map (\<lambda>i. (i, f i)) xs) k = (if k \<in> set xs then Some (f k) else None)"
  by (induction xs) auto

lemma unit_stream_nonneg: "unit_stream s \<Longrightarrow> \<not> s k < 0"
  by (simp add: unit_stream_def not_less)

lemma random_pair_p0:
  "unit_stream s \<Longrightarrow> edges (fst (random_pair s 0 ew i j st)) = edges (fst st)"
  by (cases st) (simp add: random_pair_def rnd_random_def unit_stream_nonneg)

lemma random_static_p0:
  assumes "unit_stream s"
  shows "edges (fst (fold (\<lambda>i. fold (random_pair s 0 ew i) ys) xs (G, g))) = edges G"
proof -
  have "edges (fst (fold (\<lambda>i. fold (random_pair s 0 ew i) ys) xs (G, g))) = edges (fst (G, g))"
  proof (rule fold_inv[where P = "\<lambda>st. edges (fst st) = edges (fst (G, g))"])
    fix i and a :: "graph \<times> rng"
    assume "edges (fst a) = edges (fst (G, g))"
    then show "edges (fst (fold (random_pair s 0 ew i) ys a)) = edges (fst (G, g))"
      by (rule fold_inv[where P = "\<lambda>st. edges (fst st) = edges (fst (G, g))"])
         (simp add: random_pair_p0[OF assms])
  qed simp
  then show ?thesis by simp
qed

lemma random_zero_static:
  assumes "unit_stream s"
  shows "\<exists>G g'. generate_random_graph s n False ts 0 ew g = Inr (G, [], g') \<and> number_of_edges G = 0"
proof -
  obtain G g' where r: "fold (\<lambda>i. fold (random_pair s 0 ew i) (py_range n)) (py_range n)
      (add_nodes_from empty_graph (py_range n), g) = (G, g')"
    by (cases "fold (\<lambda>i. fold (random_pair s 0 ew i) (py_range n)) (py_range n)
      (add_nodes_from empty_graph (py_range n), g)")
  from random_static_p0[OF assms, of ew "py_range n" "py_range n"
      "add_nodes_from empty_graph (py_range n)" g] r
  have "edges G = []" by (simp add: empty_graph_def)
  with r show ?thesis
    by (simp add: generate_random_graph_def number_of_edges_def)
qed

lemma random_zero_dynamic:
  "\<exists>G g'. generate_random_graph s n True 0 p ew g = Inr (G, [], g') \<and> number_of_edges G = 0"
  by (simp add: generate_random_graph_def py_range2_def number_of_edges_def empty_graph_def)

lemma homophily_zero_dynamic:
  assumes "hg \<noteq> 0 \<or> n \<le> 0"
  shows "\<exists>G g'. generate_homophily_graph s n True 0 hg p_in p_out ew g = Inr (G, [], g')
           \<and> number_of_edges G = 0"
  using assms
  by (auto simp: generate_homophily_graph_def py_range2_def py_range_def number_of_edges_def
      empty_graph_def Let_def)

lemma homophily_pair_p0:
  assumes "unit_stream s" and "i \<in> set xs" and "j \<in> set xs"
  shows "\<exists>b. homophily_pair s (map (\<lambda>i. (i, f i)) xs) 0 0 ew i j st = Inr b
            \<and> edges (fst b) = edges (fst st)"
  using assms
  by (cases st)
     (simp add: homophily_pair_def map_of_groups rnd_random_def unit_stream_nonneg)

lemma homophily_zero_static:
  assumes "unit_stream s" and "hg \<noteq> 0 \<or> n \<le> 0"
  shows "\<exists>G g'. generate_homophily_graph s n False ts hg 0 0 ew g = Inr (G, [], g')
           \<and> number_of_edges G = 0"
proof -
  let ?groups = "map (\<lambda>i. (i, i mod hg)) (py_range n)"
  let ?G1 = "(add_nodes_from empty_graph (py_range n))\<lparr>node_group := ?groups\<rparr>"
  let ?P = "\<lambda>st :: graph \<times> rng. edges (fst st) = []"
  have "\<exists>st'. for_each (\<lambda>i. for_each (homophily_pair s ?groups 0 0 ew i) (py_range n))
      (py_range n) (?G1, g) = Inr st' \<and> ?P st'"
  proof (rule for_each_Inr[where P = ?P])
    show "?P (?G1, g)" by (simp add: empty_graph_def)
  next
    fix i and a :: "graph \<times> rng"
    assume i: "i \<in> set (py_range n)" and a: "?P a"
    show "\<exists>b. for_each (homophily_pair s ?groups 0 0 ew i) (py_range n) a = Inr b \<and> ?P b"
    proof (rule for_each_Inr[where P = ?P, OF a])
      fix j and c :: "graph \<times> rng"
      assume "j \<in> set (py_range n)" and "?P c"
      with homophily_pair_p0[OF assms(1) i this(1), of "\<lambda>i. i mod hg" ew c]
      show "\<exists>b. homophily_pair s ?groups 0 0 ew i j c = Inr b \<and> ?P b" by auto
    qed
  qed
  then obtain G g' where
    "for_each (\<lambda>i. for_each (homophily_pair s ?groups 0 0 ew i) (py_range n))
      (py_range n) (?G1, g) = Inr (G, g')" and "edges G = []"
    by auto
  moreover have "\<not> (hg = 0 \<and> py_range n \<noteq> [])"
    using assms(2) by (auto simp: py_range_def)
  ultimately show ?thesis
    by (simp add: generate_homophily_graph_def Let_def number_of_edges_def)
qed

text \<open>
  C3, as amended. The random generator returns a graph with no edge and raises nothing in
  dynamic mode with \<open>time_steps = 0\<close>, and in static mode with \<open>p = 0\<close>. So does the
  homophily generator in dynamic mode with \<open>time_steps = 0\<close> and in static mode with
  \<open>p_in = p_out = 0\<close>, provided \<open>homophily_groups\<close> is not 0 (or there is no node).
  The draws of \<^verbatim>\<open>random.random()\<close> are at least 0. Preferential attachment is left
  out: it does not read \<open>time_steps\<close>.
\<close>

theorem zero_edges:
  "(\<exists>G g'. generate_random_graph s n True 0 p ew g = Inr (G, [], g') \<and> number_of_edges G = 0) \<and>
   (unit_stream s \<longrightarrow>
      (\<exists>G g'. generate_random_graph s n False ts 0 ew g = Inr (G, [], g')
         \<and> number_of_edges G = 0)) \<and>
   (hg \<noteq> 0 \<or> n \<le> 0 \<longrightarrow>
      (\<exists>G g'. generate_homophily_graph s n True 0 hg p_in p_out ew g = Inr (G, [], g')
         \<and> number_of_edges G = 0)) \<and>
   (unit_stream s \<longrightarrow> hg \<noteq> 0 \<or> n \<le> 0 \<longrightarrow>
      (\<exists>G g'. generate_homophily_graph s n False ts hg 0 0 ew g = Inr (G, [], g')
         \<and> number_of_edges G = 0))"
  using random_zero_dynamic random_zero_static homophily_zero_dynamic homophily_zero_static
  by (intro conjI impI) blast+

theorem zero_edges_witness:
  "unit_stream (\<lambda>k. 1/3) \<and> (2::int) \<noteq> 0 \<and>
   (\<exists>G g'. generate_random_graph (\<lambda>k. 1/3) 3 False 1 0 True 0 = Inr (G, [], g')
      \<and> number_of_edges G = 0) \<and>
   (\<exists>G g'. generate_homophily_graph (\<lambda>k. 1/3) 3 True 0 2 (1/2) (1/4) True 0 = Inr (G, [], g')
      \<and> number_of_edges G = 0) \<and>
   (\<exists>G g'. generate_homophily_graph (\<lambda>k. 1/3) 3 False 1 2 0 0 True 0 = Inr (G, [], g')
      \<and> number_of_edges G = 0)"
proof -
  have u: "unit_stream (\<lambda>k. 1/3)" by (simp add: unit_stream_def)
  have h: "(2::int) \<noteq> 0" by simp
  from zero_edges[of "\<lambda>k. 1/3" 3 "1/2" True 0 1 2 "1/2" "1/4"] u h
  show ?thesis by blast
qed

text \<open>
  C3 as stated fails. Dynamic preferential attachment with \<open>time_steps = 0\<close>, three
  agents and \<open>edges_per_step = 1\<close> returns three edges; the homophily generator with
  \<open>homophily_groups = 0\<close> and three agents raises ZeroDivisionError, with
  \<open>time_steps = 0\<close> in dynamic mode as with \<open>p_in = p_out = 0\<close> in static mode.
\<close>

theorem zero_edges_counterexample:
  "generate_preferential_attachment_graph (\<lambda>k. 1/3) star_base 3 True 0 1 False 0
     = Some (Inr (\<lparr>nodes = [0, 1, 2],
                   edges = [((0, 1), WeightNone), ((1, 0), WeightNone), ((2, 0), NoWeight)],
                   node_group = []\<rparr>, [(1, 2, 1)], 1)) \<and>
   generate_homophily_graph (\<lambda>k. 1/3) 3 True 0 0 (1/10) (1/100) False 0 = Inl ZeroDivisionError \<and>
   generate_homophily_graph (\<lambda>k. 1/3) 3 False 1 0 0 0 False 0 = Inl ZeroDivisionError"
  by code_simp

section \<open>Homophily calibration\<close>

lemma within_groups_iff:
  "within_groups hg G \<longleftrightarrow> (\<forall>k \<in> fst ` set (edges G). fst k mod hg = snd k mod hg)"
  by (auto simp: within_groups_def list_all_iff)

lemma across_groups_iff:
  "across_groups hg G \<longleftrightarrow> (\<forall>k \<in> fst ` set (edges G). fst k mod hg \<noteq> snd k mod hg)"
  by (auto simp: across_groups_def list_all_iff)

lemma within_groups_add:
  "within_groups hg (add_edge_weight G i j w) \<longleftrightarrow> i mod hg = j mod hg \<and> within_groups hg G"
  by (simp add: within_groups_iff keys_add_edge_weight)

lemma across_groups_add:
  "across_groups hg (add_edge_weight G i j w) \<longleftrightarrow> i mod hg \<noteq> j mod hg \<and> across_groups hg G"
  by (simp add: across_groups_iff keys_add_edge_weight)

lemma node_group_add_edge_weight [simp]:
  "node_group (add_edge_weight G u v w) = node_group G"
  by (simp add: add_edge_weight_def add_node_def Let_def)

lemma homophily_pair_cases:
  assumes "homophily_pair s groups p_in p_out ew i j st = Inr st'"
  shows "fst st' = fst st \<or>
    (\<exists>w gi gj u. fst st' = add_edge_weight (fst st) i j w \<and> map_of groups i = Some gi \<and>
       map_of groups j = Some gj \<and> u = s (snd st) \<and>
       (if gi = gj then u < p_in else u < p_out))"
  using assms
  by (cases st)
     (auto simp: homophily_pair_def rnd_random_def split: if_splits option.splits)

lemma homophily_pair_groups:
  assumes "homophily_pair s (map (\<lambda>i. (i, i mod hg)) xs) p_in p_out ew i j st = Inr st'"
    and "unit_stream s"
  shows "node_group (fst st') = node_group (fst st)"
    and "p_out = 0 \<Longrightarrow> within_groups hg (fst st) \<Longrightarrow> within_groups hg (fst st')"
    and "p_in = 0 \<Longrightarrow> across_groups hg (fst st) \<Longrightarrow> across_groups hg (fst st')"
proof -
  note c = homophily_pair_cases[OF assms(1)]
  from c show "node_group (fst st') = node_group (fst st)" by auto
  from c unit_stream_nonneg[OF assms(2), of "snd st"]
  show "p_out = 0 \<Longrightarrow> within_groups hg (fst st) \<Longrightarrow> within_groups hg (fst st')"
    by (auto simp: within_groups_add map_of_groups split: if_splits)
  from c unit_stream_nonneg[OF assms(2), of "snd st"]
  show "p_in = 0 \<Longrightarrow> across_groups hg (fst st) \<Longrightarrow> across_groups hg (fst st')"
    by (auto simp: across_groups_add map_of_groups split: if_splits)
qed

lemma homophily_static_inv:
  assumes "generate_homophily_graph s n False ts hg p_in p_out ew g = Inr (G, out, g')"
    and "\<And>i j a b. P a \<Longrightarrow>
           homophily_pair s (map (\<lambda>i. (i, i mod hg)) (py_range n)) p_in p_out ew i j a = Inr b
           \<Longrightarrow> P b"
    and "P ((add_nodes_from empty_graph (py_range n))
              \<lparr>node_group := map (\<lambda>i. (i, i mod hg)) (py_range n)\<rparr>, g)"
  shows "P (G, g')"
proof -
  let ?groups = "map (\<lambda>i. (i, i mod hg)) (py_range n)"
  let ?G1 = "(add_nodes_from empty_graph (py_range n))\<lparr>node_group := ?groups\<rparr>"
  from assms(1) have r: "for_each (\<lambda>i. for_each (homophily_pair s ?groups p_in p_out ew i)
      (py_range n)) (py_range n) (?G1, g) = Inr (G, g')"
    by (simp add: generate_homophily_graph_def Let_def split: if_splits sum.splits prod.splits)
  show ?thesis
  proof (rule for_each_inv[OF r, where P = P, OF assms(3)])
    fix i and a b :: "graph \<times> rng"
    assume a: "P a"
      and b: "for_each (homophily_pair s ?groups p_in p_out ew i) (py_range n) a = Inr b"
    show "P b"
      by (rule for_each_inv[OF b, where P = P, OF a]) (rule assms(2))
  qed
qed

text \<open>
  C8. A static homophily run gives node \<open>i\<close> the group \<open>i mod homophily_groups\<close>. If
  \<open>p_out = 0\<close>, every edge of the returned graph joins two nodes of the same group, for
  any \<open>p_in\<close>; if \<open>p_in = 0\<close>, every edge joins two nodes of different groups, for any
  \<open>p_out\<close>. The draws of \<^verbatim>\<open>random.random()\<close> lie in \<open>[0, 1)\<close>.
\<close>

theorem homophily_calibration:
  "(unit_stream s \<longrightarrow>
      generate_homophily_graph s n False ts hg p_in 0 ew g = Inr (G, out, g') \<longrightarrow>
      node_group G = map (\<lambda>i. (i, i mod hg)) (py_range n) \<and> within_groups hg G) \<and>
   (unit_stream s \<longrightarrow>
      generate_homophily_graph s n False ts hg 0 p_out ew g = Inr (H, out', g'') \<longrightarrow>
      node_group H = map (\<lambda>i. (i, i mod hg)) (py_range n) \<and> across_groups hg H)"
proof (intro conjI impI)
  let ?groups = "map (\<lambda>i. (i, i mod hg)) (py_range n)"
  {
    assume u: "unit_stream s"
      and r: "generate_homophily_graph s n False ts hg p_in 0 ew g = Inr (G, out, g')"
    have "node_group (fst (G, g')) = ?groups \<and> within_groups hg (fst (G, g'))"
      by (rule homophily_static_inv[OF r,
            where P = "\<lambda>st. node_group (fst st) = ?groups \<and> within_groups hg (fst st)"])
         (use homophily_pair_groups[OF _ u] in
            \<open>auto simp: within_groups_def empty_graph_def\<close>)
    then show "node_group G = ?groups" and "within_groups hg G" by simp_all
  }
  {
    assume u: "unit_stream s"
      and r: "generate_homophily_graph s n False ts hg 0 p_out ew g = Inr (H, out', g'')"
    have "node_group (fst (H, g'')) = ?groups \<and> across_groups hg (fst (H, g''))"
      by (rule homophily_static_inv[OF r,
            where P = "\<lambda>st. node_group (fst st) = ?groups \<and> across_groups hg (fst st)"])
         (use homophily_pair_groups[OF _ u] in
            \<open>auto simp: across_groups_def empty_graph_def\<close>)
    then show "node_group H = ?groups" and "across_groups hg H" by simp_all
  }
qed

theorem homophily_calibration_witness:
  "unit_stream (\<lambda>k. 1/3) \<and>
   generate_homophily_graph (\<lambda>k. 1/3) 4 False 1 2 (1/2) 0 False 0
     = Inr (\<lparr>nodes = [0, 1, 2, 3],
             edges = [((0, 2), WeightNone), ((1, 3), WeightNone),
                      ((2, 0), WeightNone), ((3, 1), WeightNone)],
             node_group = [(0, 0), (1, 1), (2, 0), (3, 1)]\<rparr>, [], 12) \<and>
   within_groups 2 \<lparr>nodes = [0, 1, 2, 3],
             edges = [((0, 2), WeightNone), ((1, 3), WeightNone),
                      ((2, 0), WeightNone), ((3, 1), WeightNone)],
             node_group = [(0, 0), (1, 1), (2, 0), (3, 1)]\<rparr> \<and>
   generate_homophily_graph (\<lambda>k. 1/3) 3 False 1 2 0 (1/2) False 0
     = Inr (\<lparr>nodes = [0, 1, 2],
             edges = [((0, 1), WeightNone), ((1, 0), WeightNone),
                      ((1, 2), WeightNone), ((2, 1), WeightNone)],
             node_group = [(0, 0), (1, 1), (2, 0)]\<rparr>, [], 6) \<and>
   across_groups 2 \<lparr>nodes = [0, 1, 2],
             edges = [((0, 1), WeightNone), ((1, 0), WeightNone),
                      ((1, 2), WeightNone), ((2, 1), WeightNone)],
             node_group = [(0, 0), (1, 1), (2, 0)]\<rparr>"
proof -
  have u: "unit_stream (\<lambda>k. 1/3)" by (simp add: unit_stream_def)
  have h1: "generate_homophily_graph (\<lambda>k. 1/3) 4 False 1 2 (1/2) 0 False 0
     = Inr (\<lparr>nodes = [0, 1, 2, 3],
             edges = [((0, 2), WeightNone), ((1, 3), WeightNone),
                      ((2, 0), WeightNone), ((3, 1), WeightNone)],
             node_group = [(0, 0), (1, 1), (2, 0), (3, 1)]\<rparr>, [], 12)"
    by code_simp
  have h2: "generate_homophily_graph (\<lambda>k. 1/3) 3 False 1 2 0 (1/2) False 0
     = Inr (\<lparr>nodes = [0, 1, 2],
             edges = [((0, 1), WeightNone), ((1, 0), WeightNone),
                      ((1, 2), WeightNone), ((2, 1), WeightNone)],
             node_group = [(0, 0), (1, 1), (2, 0)]\<rparr>, [], 6)"
    by code_simp
  from homophily_calibration[of "\<lambda>k. 1/3" 4 1 2 "1/2" False 0 _ "[]" 12 0 _ "[]" 0]
    homophily_calibration[of "\<lambda>k. 1/3" 3 1 2 0 False 0 _ "[]" 0 "1/2" _ "[]" 6]
    u h1 h2
  show ?thesis by (simp only: simp_thms)
qed

section \<open>The count printed by a dynamic step\<close>

lemma has_edge_keys: "has_edge G u v \<longleftrightarrow> (u, v) \<in> set (map fst (edges G))"
  by (simp add: has_edge_def map_of_eq_None_iff)

lemma keys_list_add_edge:
  "\<not> has_edge G u v \<Longrightarrow> map fst (edges (add_edge G u v)) = map fst (edges G) @ [(u, v)]"
  by (simp add: add_edge_def Let_def has_edge_def)

lemma keys_list_add_edge_weight:
  "\<not> has_edge G u v
     \<Longrightarrow> map fst (edges (add_edge_weight G u v w)) = map fst (edges G) @ [(u, v)]"
  by (simp add: add_edge_weight_def Let_def has_edge_keys update_keys)

lemma keys_list_incr_weight:
  "incr_weight G u v = Inr G' \<Longrightarrow> map fst (edges G') = map fst (edges G)"
proof -
  assume a: "incr_weight G u v = Inr G'"
  then obtain w where m: "map_of (edges G) (u, v) = Some (Weight w)"
    and G': "G' = G\<lparr>edges := AList.update (u, v) (Weight (w + 1)) (edges G)\<rparr>"
    by (auto simp: incr_weight_def split: option.splits attr.splits)
  from m have "(u, v) \<in> set (map fst (edges G))"
    by (metis map_of_eq_None_iff option.distinct(1) set_map)
  then show ?thesis by (simp add: G' update_keys)
qed

lemma creates_refl: "creates G G []"
  by (simp add: creates_def)

lemma creates_same: "creates G H new \<Longrightarrow> map fst (edges H') = map fst (edges H) \<Longrightarrow> creates G H' new"
  by (simp add: creates_def)

lemma creates_snoc:
  assumes "creates G H new" and "\<not> has_edge H u v"
    and "map fst (edges H') = map fst (edges H) @ [(u, v)]"
  shows "creates G H' (new @ [(u, v)])"
  using assms by (auto simp: creates_def has_edge_keys)

lemma counted_same:
  "counted G c (H, k, g) \<Longrightarrow> map fst (edges H') = map fst (edges H) \<Longrightarrow> counted G c (H', k, g')"
  by (auto simp: counted_def intro: creates_same)

lemma counted_snoc:
  assumes "counted G c (H, k, g)" and "\<not> has_edge H u v"
    and "map fst (edges H') = map fst (edges H) @ [(u, v)]"
  shows "counted G c (H', k + 1, g')"
proof -
  from assms(1) obtain new where n: "creates G H new" "k = c + length new"
    by (auto simp: counted_def)
  from creates_snoc[OF n(1) assms(2,3)] n(2) show ?thesis
    by (auto simp: counted_def)
qed

lemma counted_random_visit:
  assumes "random_visit s n p ew i st = Inr st'" and "counted G c st"
  shows "counted G c st'"
proof -
  obtain H k g where st: "st = (H, k, g)" by (cases st rule: prod_cases3)
  note c = assms(2)[unfolded st]
  from assms(1) consider
      (same) g' where "st' = (H, k, g')"
    | (incr) j H' g' where "incr_weight H i j = Inr H'" "st' = (H', k, g')"
    | (new) j g' where "\<not> has_edge H i j"
        "st' = (if ew then add_edge_weight H i j (Weight 1) else add_edge H i j, k + 1, g')"
    by (auto simp: random_visit_def st split: prod.splits if_splits sum.splits)
  then show ?thesis
  proof cases
    case same
    with c show ?thesis by (auto intro: counted_same)
  next
    case incr
    with c keys_list_incr_weight[OF incr(1)] show ?thesis by (auto intro: counted_same)
  next
    case new
    show ?thesis unfolding new(2)
      by (rule counted_snoc[OF c new(1)])
         (simp add: keys_list_add_edge[OF new(1)] keys_list_add_edge_weight[OF new(1)])
  qed
qed

lemma counted_homophily_visit:
  assumes "homophily_visit s n groups p_in p_out ew i st = Inr st'" and "counted G c st"
  shows "counted G c st'"
proof -
  obtain H k g where st: "st = (H, k, g)" by (cases st rule: prod_cases3)
  note c = assms(2)[unfolded st]
  from assms(1) consider
      (same) g' where "st' = (H, k, g')"
    | (link) j H' k' g' where "homophily_link ew i j (H, k) = Inr (H', k')" "st' = (H', k', g')"
    by (auto simp: homophily_visit_def st split: prod.splits if_splits sum.splits option.splits)
  then show ?thesis
  proof cases
    case same
    with c show ?thesis by (auto intro: counted_same)
  next
    case link
    from link(1) consider
        (same) "H' = H" "k' = k"
      | (incr) "incr_weight H i j = Inr H'" "k' = k"
      | (new) "\<not> has_edge H i j" "k' = k + 1"
          "H' = add_edge_weight H i j (if ew then Weight 1 else WeightNone)"
      by (auto simp: homophily_link_def split: if_splits sum.splits)
    then show ?thesis
    proof cases
      case same
      with c link(2) show ?thesis by (auto intro: counted_same)
    next
      case incr
      with c link(2) keys_list_incr_weight[OF incr(1)] show ?thesis
        by (auto intro: counted_same)
    next
      case new
      show ?thesis unfolding link(2) new(2,3)
        by (rule counted_snoc[OF c new(1)]) (simp add: keys_list_add_edge_weight[OF new(1)])
    qed
  qed
qed

lemma counted_init: "counted G 0 (G, 0, g)"
  by (auto simp: counted_def intro: creates_refl)

text \<open>
  C6. One dynamic step of the random generator, and of the homophily generator, from any
  graph: the count it prints is the number of edges it has created. The edges of the graph
  before the step are all still there, in place; the created edges are new keys; a
  selection that hits an existing edge, whether it increments the weight or not, adds
  nothing to the count.
\<close>

theorem edges_added_counts_new_edges:
  "(random_step s n p ew t (G, out, g) = Inr (G', out', g') \<longrightarrow>
      (\<exists>new. creates G G' new \<and> out' = out @ [length new])) \<and>
   (homophily_step s n groups p_in p_out ew t (H, out2, g) = Inr (H', out2', g'') \<longrightarrow>
      (\<exists>new. creates H H' new \<and> out2' = out2 @ [length new]))"
proof (intro conjI impI)
  assume "random_step s n p ew t (G, out, g) = Inr (G', out', g')"
  then obtain c where
    r: "for_each (random_visit s n p ew) (py_range n) (G, 0, g) = Inr (G', c, g')"
    and o: "out' = out @ [c]"
    by (auto simp: random_step_def split: sum.splits)
  have "counted G 0 (G', c, g')"
    by (rule for_each_inv[OF r, where P = "counted G 0", OF counted_init])
       (rule counted_random_visit)
  with o show "\<exists>new. creates G G' new \<and> out' = out @ [length new]"
    by (auto simp: counted_def)
next
  assume "homophily_step s n groups p_in p_out ew t (H, out2, g) = Inr (H', out2', g'')"
  then obtain c where
    r: "for_each (homophily_visit s n groups p_in p_out ew) (py_range n) (H, 0, g)
          = Inr (H', c, g'')"
    and o: "out2' = out2 @ [c]"
    by (auto simp: homophily_step_def split: sum.splits)
  have "counted H 0 (H', c, g'')"
    by (rule for_each_inv[OF r, where P = "counted H 0", OF counted_init])
       (rule counted_homophily_visit)
  with o show "\<exists>new. creates H H' new \<and> out2' = out2 @ [length new]"
    by (auto simp: counted_def)
qed

theorem edges_added_counts_new_edges_witness:
  "random_step (\<lambda>k. 1/3) 3 (1/2) True 1
     (\<lparr>nodes = [0, 1, 2], edges = [((0, 1), Weight 1)], node_group = []\<rparr>, [], 0)
     = Inr (\<lparr>nodes = [0, 1, 2], edges = [((0, 1), Weight 2), ((2, 1), Weight 1)],
             node_group = []\<rparr>, [1], 6) \<and>
   (\<exists>new. creates \<lparr>nodes = [0, 1, 2], edges = [((0, 1), Weight 1)], node_group = []\<rparr>
             \<lparr>nodes = [0, 1, 2], edges = [((0, 1), Weight 2), ((2, 1), Weight 1)],
               node_group = []\<rparr> new \<and>
           [1] = [] @ [length new]) \<and>
   homophily_step (\<lambda>k. 1/3) 3 [(0, 0), (1, 1), (2, 0)] (1/2) (1/2) False 1
     (\<lparr>nodes = [0, 1, 2], edges = [((0, 1), WeightNone)],
       node_group = [(0, 0), (1, 1), (2, 0)]\<rparr>, [5], 0)
     = Inr (\<lparr>nodes = [0, 1, 2], edges = [((0, 1), WeightNone), ((2, 1), WeightNone)],
             node_group = [(0, 0), (1, 1), (2, 0)]\<rparr>, [5, 1], 5) \<and>
   (\<exists>new. creates \<lparr>nodes = [0, 1, 2], edges = [((0, 1), WeightNone)],
               node_group = [(0, 0), (1, 1), (2, 0)]\<rparr>
             \<lparr>nodes = [0, 1, 2], edges = [((0, 1), WeightNone), ((2, 1), WeightNone)],
               node_group = [(0, 0), (1, 1), (2, 0)]\<rparr> new \<and>
           [5, 1] = [5] @ [length new])"
proof -
  have h1: "random_step (\<lambda>k. 1/3) 3 (1/2) True 1
     (\<lparr>nodes = [0, 1, 2], edges = [((0, 1), Weight 1)], node_group = []\<rparr>, [], 0)
     = Inr (\<lparr>nodes = [0, 1, 2], edges = [((0, 1), Weight 2), ((2, 1), Weight 1)],
             node_group = []\<rparr>, [1], 6)"
    by code_simp
  have h2: "homophily_step (\<lambda>k. 1/3) 3 [(0, 0), (1, 1), (2, 0)] (1/2) (1/2) False 1
     (\<lparr>nodes = [0, 1, 2], edges = [((0, 1), WeightNone)],
       node_group = [(0, 0), (1, 1), (2, 0)]\<rparr>, [5], 0)
     = Inr (\<lparr>nodes = [0, 1, 2], edges = [((0, 1), WeightNone), ((2, 1), WeightNone)],
             node_group = [(0, 0), (1, 1), (2, 0)]\<rparr>, [5, 1], 5)"
    by code_simp
  from edges_added_counts_new_edges[of "\<lambda>k. 1/3" 3 "1/2" True 1 _ "[]" 0 _ "[1]" 6
      "[(0, 0), (1, 1), (2, 0)]" "1/2" "1/2" _ "[5]" _ "[5, 1]" 5] h1
    edges_added_counts_new_edges[of "\<lambda>k. 1/3" 3 "1/2" False 1 _ "[]" 0 _ "[1]" 6
      "[(0, 0), (1, 1), (2, 0)]" "1/2" "1/2" _ "[5]" _ "[5, 1]" 5] h2
  show ?thesis by (simp only: simp_thms)
qed

section \<open>Invariants of the generators\<close>

text \<open>
  A property of the state that holds at the start and that every iteration of the
  innermost loop keeps, holds of the returned graph.
\<close>

lemma random_dynamic_inv:
  assumes "generate_random_graph s n True ts p ew g = Inr (G, out, g')"
    and "P (add_nodes_from empty_graph (py_range n)) g"
    and "\<And>i H c k H' c' k'. i \<in> set (py_range n) \<Longrightarrow> P H k
           \<Longrightarrow> random_visit s n p ew i (H, c, k) = Inr (H', c', k') \<Longrightarrow> P H' k'"
  shows "P G g'"
proof -
  let ?Q = "\<lambda>st :: graph \<times> nat list \<times> rng. P (fst st) (snd (snd st))"
  let ?R = "\<lambda>st :: graph \<times> nat \<times> rng. P (fst st) (snd (snd st))"
  from assms(1) have r: "for_each (random_step s n p ew) (py_range2 1 (ts + 1))
      (add_nodes_from empty_graph (py_range n), [], g) = Inr (G, out, g')"
    by (simp add: generate_random_graph_def)
  have "?Q (G, out, g')"
  proof (rule for_each_inv[OF r, where P = ?Q])
    show "?Q (add_nodes_from empty_graph (py_range n), [], g)" using assms(2) by simp
  next
    fix t and a b :: "graph \<times> nat list \<times> rng"
    assume a: "?Q a" and b: "random_step s n p ew t a = Inr b"
    obtain H o1 k where st: "a = (H, o1, k)" by (cases a rule: prod_cases3)
    from b obtain H' c k' where
      v: "for_each (random_visit s n p ew) (py_range n) (H, 0, k) = Inr (H', c, k')"
      and b': "b = (H', o1 @ [c], k')"
      by (auto simp: random_step_def st split: sum.splits)
    have "?R (H', c, k')"
    proof (rule for_each_inv[OF v, where P = ?R])
      show "?R (H, 0, k)" using a st by simp
    next
      fix i and x y :: "graph \<times> nat \<times> rng"
      assume "i \<in> set (py_range n)" "?R x" "random_visit s n p ew i x = Inr y"
      then show "?R y"
        using assms(3)[of i "fst x" "snd (snd x)" "fst (snd x)" "fst y" "fst (snd y)" "snd (snd y)"]
        by simp
    qed
    then show "?Q b" by (simp add: b')
  qed
  then show ?thesis by simp
qed

lemma random_static_inv:
  assumes "generate_random_graph s n False ts p ew g = Inr (G, out, g')"
    and "P (add_nodes_from empty_graph (py_range n), g)"
    and "\<And>i j a. i \<in> set (py_range n) \<Longrightarrow> j \<in> set (py_range n) \<Longrightarrow> P a
           \<Longrightarrow> P (random_pair s p ew i j a)"
  shows "P (G, g')"
proof -
  have "P (fold (\<lambda>i. fold (random_pair s p ew i) (py_range n)) (py_range n)
      (add_nodes_from empty_graph (py_range n), g))"
  proof (rule fold_inv[where P = P, OF assms(2)])
    fix i and a :: "graph \<times> rng"
    assume i: "i \<in> set (py_range n)" and a: "P a"
    show "P (fold (random_pair s p ew i) (py_range n) a)"
      by (rule fold_inv[where P = P, OF a]) (rule assms(3)[OF i])
  qed
  with assms(1) show ?thesis
    by (auto simp: generate_random_graph_def split: prod.splits)
qed

lemma homophily_dynamic_inv:
  assumes "generate_homophily_graph s n True ts hg p_in p_out ew g = Inr (G, out, g')"
    and "P ((add_nodes_from empty_graph (py_range n))
              \<lparr>node_group := map (\<lambda>i. (i, i mod hg)) (py_range n)\<rparr>) g"
    and "\<And>i H c k H' c' k'. i \<in> set (py_range n) \<Longrightarrow> P H k
           \<Longrightarrow> homophily_visit s n (map (\<lambda>i. (i, i mod hg)) (py_range n)) p_in p_out ew i
                 (H, c, k) = Inr (H', c', k')
           \<Longrightarrow> P H' k'"
  shows "P G g'"
proof -
  let ?groups = "map (\<lambda>i. (i, i mod hg)) (py_range n)"
  let ?G1 = "(add_nodes_from empty_graph (py_range n))\<lparr>node_group := ?groups\<rparr>"
  let ?Q = "\<lambda>st :: graph \<times> nat list \<times> rng. P (fst st) (snd (snd st))"
  let ?R = "\<lambda>st :: graph \<times> nat \<times> rng. P (fst st) (snd (snd st))"
  from assms(1) have r: "for_each (homophily_step s n ?groups p_in p_out ew)
      (py_range2 1 (ts + 1)) (?G1, [], g) = Inr (G, out, g')"
    by (simp add: generate_homophily_graph_def Let_def split: if_splits)
  have "?Q (G, out, g')"
  proof (rule for_each_inv[OF r, where P = ?Q])
    show "?Q (?G1, [], g)" using assms(2) by simp
  next
    fix t and a b :: "graph \<times> nat list \<times> rng"
    assume a: "?Q a" and b: "homophily_step s n ?groups p_in p_out ew t a = Inr b"
    obtain H o1 k where st: "a = (H, o1, k)" by (cases a rule: prod_cases3)
    from b obtain H' c k' where
      v: "for_each (homophily_visit s n ?groups p_in p_out ew) (py_range n) (H, 0, k)
            = Inr (H', c, k')"
      and b': "b = (H', o1 @ [c], k')"
      by (auto simp: homophily_step_def st split: sum.splits)
    have "?R (H', c, k')"
    proof (rule for_each_inv[OF v, where P = ?R])
      show "?R (H, 0, k)" using a st by simp
    next
      fix i and x y :: "graph \<times> nat \<times> rng"
      assume "i \<in> set (py_range n)" "?R x"
        "homophily_visit s n ?groups p_in p_out ew i x = Inr y"
      then show "?R y"
        using assms(3)[of i "fst x" "snd (snd x)" "fst (snd x)" "fst y" "fst (snd y)" "snd (snd y)"]
        by simp
    qed
    then show "?Q b" by (simp add: b')
  qed
  then show ?thesis by simp
qed

lemma preferential_dynamic_inv:
  assumes "generate_preferential_attachment_graph s ba n True ts m ew g
             = Some (Inr (G, out, g'))"
    and "P (add_nodes_from empty_graph (py_range (m + 1)))"
    and "\<And>u v H. P H \<Longrightarrow> P (seed_pair ew u v H)"
    and "\<And>t H o1 k H' o2 k'. P H
           \<Longrightarrow> pa_arrival s m ew (m + 1) t (H, o1, k) = Some (H', o2, k') \<Longrightarrow> P H'"
  shows "P G"
proof -
  let ?init = "m + 1"
  let ?G1 = "fold (\<lambda>u. fold (seed_pair ew u) (py_range ?init)) (py_range ?init)
               (add_nodes_from empty_graph (py_range ?init))"
  let ?Q = "\<lambda>st :: graph \<times> pa_out \<times> rng. P (fst st)"
  have G1: "P ?G1"
  proof (rule fold_inv[where P = P, OF assms(2)])
    fix u a assume "P a"
    then show "P (fold (seed_pair ew u) (py_range ?init) a)"
      by (rule fold_inv[where P = P]) (rule assms(3))
  qed
  from assms(1) have r: "for_each_opt (pa_arrival s m ew ?init) (py_range2 ?init n)
      (?G1, [], g) = Some (G, out, g')"
    by (simp add: generate_preferential_attachment_graph_def Let_def split: option.splits)
  have "?Q (G, out, g')"
  proof (rule for_each_opt_inv[OF r, where P = ?Q])
    show "?Q (?G1, [], g)" using G1 by simp
  next
    fix t and a b :: "graph \<times> pa_out \<times> rng"
    assume "?Q a" "pa_arrival s m ew ?init t a = Some b"
    then show "?Q b"
      using assms(4)[of "fst a" t "fst (snd a)" "snd (snd a)" "fst b" "fst (snd b)" "snd (snd b)"]
      by simp
  qed
  then show ?thesis by simp
qed

lemma preferential_static_inv:
  assumes "generate_preferential_attachment_graph s ba n False ts m ew g
             = Some (Inr (G, out, g'))"
    and "\<And>ns es. ba n m = Inr (ns, es) \<Longrightarrow> P (add_nodes_from empty_graph ns, g)"
    and "\<And>ns es e a. ba n m = Inr (ns, es) \<Longrightarrow> e \<in> set es \<Longrightarrow> P a \<Longrightarrow> P (ba_edge s ew e a)"
  shows "P (G, g')"
proof -
  from assms(1) obtain ns es where ba: "ba n m = Inr (ns, es)"
    and r: "fold (ba_edge s ew) es (add_nodes_from empty_graph ns, g) = (G, g')"
    by (auto simp: generate_preferential_attachment_graph_def split: sum.splits prod.splits)
  have "P (fold (ba_edge s ew) es (add_nodes_from empty_graph ns, g))"
    by (rule fold_inv[where P = P, OF assms(2)[OF ba]]) (rule assms(3)[OF ba])
  then show ?thesis by (simp add: r)
qed

section \<open>Bounds on edge weights\<close>

lemma set_update_subset: "set (AList.update k v al) \<subseteq> insert (k, v) (set al)"
  by (induction al) auto

lemma weights_ok_iff:
  "weights_ok dyn ew G \<longleftrightarrow> (\<forall>e \<in> set (edges G). edge_ok dyn ew (snd e))"
  by (simp add: weights_ok_def list_all_iff)

lemma wok_add_edge_weight:
  assumes "edge_ok dyn ew a" and "weights_ok dyn ew G"
  shows "weights_ok dyn ew (add_edge_weight G u v a)"
proof -
  have "set (edges (add_edge_weight G u v a)) \<subseteq> insert ((u, v), a) (set (edges G))"
    by (simp add: add_edge_weight_def Let_def set_update_subset)
  with assms show ?thesis by (auto simp: weights_ok_iff)
qed

lemma wok_add_edge:
  assumes "\<not> ew" and "weights_ok dyn ew G"
  shows "weights_ok dyn ew (add_edge G u v)"
  using assms by (auto simp: weights_ok_iff add_edge_def Let_def edge_ok_def)

lemma wok_incr_weight:
  assumes "incr_weight G u v = Inr G'" and "weights_ok True ew G"
  shows "weights_ok True ew G'"
proof -
  from assms(1) obtain w where m: "map_of (edges G) (u, v) = Some (Weight w)"
    and G': "G' = G\<lparr>edges := AList.update (u, v) (Weight (w + 1)) (edges G)\<rparr>"
    by (auto simp: incr_weight_def split: option.splits attr.splits)
  from map_of_SomeD[OF m] assms(2) have "edge_ok True ew (Weight w)"
    by (auto simp: weights_ok_iff)
  then have ok: "edge_ok True ew (Weight (w + 1))" by (simp add: edge_ok_def)
  have "set (edges G') \<subseteq> insert ((u, v), Weight (w + 1)) (set (edges G))"
    by (simp add: G' set_update_subset)
  with ok assms(2) show ?thesis by (auto simp: weights_ok_iff)
qed

lemma wok_add_node [simp]: "weights_ok dyn ew (add_node G v) = weights_ok dyn ew G"
  by (simp add: weights_ok_def)

lemma wok_start [simp]:
  "weights_ok dyn ew (add_nodes_from empty_graph vs)"
  "weights_ok dyn ew ((add_nodes_from empty_graph vs)\<lparr>node_group := x\<rparr>)"
  by (simp_all add: weights_ok_def empty_graph_def)

lemma edge_ok_one: "edge_ok True True (Weight 1)"
  by (simp add: edge_ok_def)

lemma edge_ok_seed: "edge_ok True ew (if ew then Weight 1 else WeightNone)"
  by (simp add: edge_ok_def)

lemma edge_ok_none: "\<not> ew \<Longrightarrow> edge_ok dyn ew WeightNone"
  by (simp add: edge_ok_def)

lemma edge_ok_draw: "unit_stream s \<Longrightarrow> edge_ok False True (Weight (s k))"
  by (simp add: edge_ok_def unit_stream_def)

lemma wok_random_visit:
  assumes "random_visit s n p ew i (H, c, k) = Inr (H', c', k')" and "weights_ok True ew H"
  shows "weights_ok True ew H'"
proof -
  from assms(1) consider
      (same) "H' = H"
    | (incr) j where "incr_weight H i j = Inr H'"
    | (new) j where "H' = (if ew then add_edge_weight H i j (Weight 1) else add_edge H i j)"
    by (auto simp: random_visit_def split: prod.splits if_splits sum.splits)
  then show ?thesis
  proof cases
    case same
    with assms(2) show ?thesis by simp
  next
    case incr
    from wok_incr_weight[OF incr assms(2)] show ?thesis .
  next
    case new
    with assms(2) show ?thesis
      by (auto simp: wok_add_edge wok_add_edge_weight edge_ok_one)
  qed
qed

lemma wok_random_pair:
  assumes "unit_stream s" and "weights_ok False ew (fst a)"
  shows "weights_ok False ew (fst (random_pair s p ew i j a))"
  using assms
  by (cases a)
     (auto simp: random_pair_def rnd_random_def wok_add_edge wok_add_edge_weight edge_ok_draw)

lemma wok_homophily_link:
  assumes "homophily_link ew i j (H, c) = Inr (H', c')" and "weights_ok True ew H"
  shows "weights_ok True ew H'"
proof -
  from assms(1) consider
      (same) "H' = H"
    | (incr) "incr_weight H i j = Inr H'"
    | (new) "H' = add_edge_weight H i j (if ew then Weight 1 else WeightNone)"
    by (auto simp: homophily_link_def split: if_splits sum.splits)
  then show ?thesis
  proof cases
    case same
    with assms(2) show ?thesis by simp
  next
    case incr
    from wok_incr_weight[OF incr assms(2)] show ?thesis .
  next
    case new
    show ?thesis unfolding new by (rule wok_add_edge_weight[OF edge_ok_seed assms(2)])
  qed
qed

lemma wok_homophily_visit:
  assumes "homophily_visit s n groups p_in p_out ew i (H, c, k) = Inr (H', c', k')"
    and "weights_ok True ew H"
  shows "weights_ok True ew H'"
proof -
  from assms(1) consider
      (same) "H' = H"
    | (link) j where "homophily_link ew i j (H, c) = Inr (H', c')"
    by (auto simp: homophily_visit_def split: prod.splits if_splits sum.splits option.splits)
  then show ?thesis
  proof cases
    case same
    with assms(2) show ?thesis by simp
  next
    case link
    from wok_homophily_link[OF link assms(2)] show ?thesis .
  qed
qed

lemma wok_homophily_pair:
  assumes "homophily_pair s groups p_in p_out ew i j a = Inr b" and "unit_stream s"
    and "weights_ok False ew (fst a)"
  shows "weights_ok False ew (fst b)"
  using assms
  by (cases a)
     (auto simp: homophily_pair_def rnd_random_def wok_add_edge_weight edge_ok_draw edge_ok_none
      split: if_splits option.splits)

lemma wok_seed_pair: "weights_ok True ew H \<Longrightarrow> weights_ok True ew (seed_pair ew u v H)"
  by (simp add: seed_pair_def wok_add_edge_weight[OF edge_ok_seed])

lemma wok_attach:
  "weights_ok True ew H \<Longrightarrow> weights_ok True ew (fold (attach ew t) targets H)"
  by (induction targets arbitrary: H)
     (auto simp: attach_def wok_add_edge wok_add_edge_weight edge_ok_one)

lemma wok_pa_arrival:
  assumes "pa_arrival s m ew init t (H, o1, k) = Some (H', o2, k')" and "weights_ok True ew H"
  shows "weights_ok True ew H'"
proof -
  from assms(1) obtain targets where "H' = fold (attach ew t) targets (add_node H t)"
    by (auto simp: pa_arrival_def Let_def split: option.splits)
  with assms(2) show ?thesis by (simp add: wok_attach)
qed

lemma wok_ba_edge:
  assumes "unit_stream s" and "weights_ok False ew (fst a)"
  shows "weights_ok False ew (fst (ba_edge s ew e a))"
  using assms
  by (cases a; cases e)
     (auto simp: ba_edge_def rnd_random_def wok_add_edge_weight edge_ok_draw edge_ok_none)

lemma wok_random:
  assumes "generate_random_graph s n dyn ts p ew g = Inr (G, out, g')" and "unit_stream s"
  shows "weights_ok dyn ew G"
proof (cases dyn)
  case True
  with assms(1) have r: "generate_random_graph s n True ts p ew g = Inr (G, out, g')" by simp
  have "weights_ok True ew G"
    by (rule random_dynamic_inv[OF r, where P = "\<lambda>H k. weights_ok True ew H"])
       (auto intro: wok_random_visit)
  with True show ?thesis by simp
next
  case False
  with assms(1) have r: "generate_random_graph s n False ts p ew g = Inr (G, out, g')" by simp
  have "weights_ok False ew (fst (G, g'))"
    by (rule random_static_inv[OF r, where P = "\<lambda>a. weights_ok False ew (fst a)"])
       (auto intro: wok_random_pair[OF assms(2)])
  with False show ?thesis by simp
qed

lemma wok_homophily:
  assumes "generate_homophily_graph s n dyn ts hg p_in p_out ew g = Inr (G, out, g')"
    and "unit_stream s"
  shows "weights_ok dyn ew G"
proof (cases dyn)
  case True
  with assms(1) have r: "generate_homophily_graph s n True ts hg p_in p_out ew g = Inr (G, out, g')"
    by simp
  have "weights_ok True ew G"
    by (rule homophily_dynamic_inv[OF r, where P = "\<lambda>H k. weights_ok True ew H"])
       (auto intro: wok_homophily_visit)
  with True show ?thesis by simp
next
  case False
  with assms(1) have r: "generate_homophily_graph s n False ts hg p_in p_out ew g = Inr (G, out, g')"
    by simp
  have "weights_ok False ew (fst (G, g'))"
    by (rule homophily_static_inv[OF r, where P = "\<lambda>a. weights_ok False ew (fst a)"])
       (auto intro: wok_homophily_pair[OF _ assms(2)])
  with False show ?thesis by simp
qed

lemma wok_preferential:
  assumes "generate_preferential_attachment_graph s ba n dyn ts m ew g = Some (Inr (G, out, g'))"
    and "unit_stream s"
  shows "weights_ok dyn ew G"
proof (cases dyn)
  case True
  with assms(1) have r: "generate_preferential_attachment_graph s ba n True ts m ew g
      = Some (Inr (G, out, g'))" by simp
  have "weights_ok True ew G"
    by (rule preferential_dynamic_inv[OF r, where P = "weights_ok True ew"])
       (auto intro: wok_seed_pair wok_pa_arrival)
  with True show ?thesis by simp
next
  case False
  with assms(1) have r: "generate_preferential_attachment_graph s ba n False ts m ew g
      = Some (Inr (G, out, g'))" by simp
  have "weights_ok False ew (fst (G, g'))"
    by (rule preferential_static_inv[OF r, where P = "\<lambda>a. weights_ok False ew (fst a)"])
       (auto intro: wok_ba_edge[OF assms(2)])
  with False show ?thesis by simp
qed

section \<open>Weights count selections\<close>

lemma map_of_add_edge_weight:
  "map_of (edges (add_edge_weight G u v a)) = (map_of (edges G))((u, v) \<mapsto> a)"
  by (simp add: add_edge_weight_def Let_def update_conv')

lemma tallies_has_edge: "tallies H cnt \<Longrightarrow> has_edge H i j \<longleftrightarrow> cnt (i, j) \<noteq> 0"
  by (simp add: tallies_def has_edge_def reinforced_def)

lemma tallies_incr:
  assumes "tallies H cnt" and "incr_weight H i j = Inr H'"
  shows "tallies H' (bump (Some (i, j)) cnt)"
proof -
  from assms(2) obtain w where m: "map_of (edges H) (i, j) = Some (Weight w)"
    and H': "H' = H\<lparr>edges := AList.update (i, j) (Weight (w + 1)) (edges H)\<rparr>"
    by (auto simp: incr_weight_def split: option.splits attr.splits)
  from m assms(1) have c: "cnt (i, j) \<noteq> 0" and w: "w = 1 + real (cnt (i, j) - 1)"
    by (auto simp: tallies_def reinforced_def split: if_splits)
  from c have "w + 1 = 1 + real (cnt (i, j))" unfolding w by (cases "cnt (i, j)") auto
  with assms(1) show ?thesis
    by (auto simp: tallies_def H' update_conv' bump_def reinforced_def)
qed

lemma tallies_new:
  assumes "tallies H cnt" and "\<not> has_edge H i j"
  shows "tallies (add_edge_weight H i j (Weight 1)) (bump (Some (i, j)) cnt)"
proof -
  from assms have "cnt (i, j) = 0" by (simp add: tallies_has_edge)
  with assms(1) show ?thesis
    by (auto simp: tallies_def map_of_add_edge_weight bump_def reinforced_def)
qed

lemma tallies_none: "tallies H cnt \<Longrightarrow> tallies H (bump None cnt)"
  by (simp add: bump_def)

lemma random_visit_tally:
  assumes "random_visit s n p True i (H, c, k) = Inr (H', c', k')" and "tallies H cnt"
  shows "k' = snd (random_choice s n p i k) \<and> tallies H' (bump (fst (random_choice s n p i k)) cnt)"
proof (cases "fst (rnd_random s k) < p")
  case False
  with assms show ?thesis
    by (auto simp: random_visit_def random_choice_def tallies_none split: prod.splits)
next
  case True
  obtain u g1 where r: "rnd_random s k = (u, g1)" by (cases "rnd_random s k")
  with True have u: "u < p" by simp
  show ?thesis
  proof (cases "rnd_randrange s n g1")
    case (Inl e)
    with assms r u show ?thesis by (simp add: random_visit_def)
  next
    case (Inr jg)
    obtain j g2 where jg: "jg = (j, g2)" by (cases jg)
    have ch: "random_choice s n p i k = (if j = i then None else Some (i, j), g2)"
      using r u Inr jg by (simp add: random_choice_def)
    show ?thesis
    proof (cases "j = i")
      case True
      with assms r u Inr jg ch show ?thesis by (auto simp: random_visit_def tallies_none)
    next
      case ne: False
      show ?thesis
      proof (cases "has_edge H i j")
        case True
        with assms(1) r u Inr jg ne have "incr_weight H i j = Inr H'" "k' = g2"
          by (auto simp: random_visit_def split: sum.splits)
        with tallies_incr[OF assms(2) this(1)] ch ne show ?thesis by simp
      next
        case False
        with assms(1) r u Inr jg ne have "H' = add_edge_weight H i j (Weight 1)" "k' = g2"
          by (auto simp: random_visit_def)
        with tallies_new[OF assms(2) False] ch ne show ?thesis by simp
      qed
    qed
  qed
qed

lemma homophily_link_tally:
  assumes "homophily_link True i j (H, c) = Inr (H', c')" and "tallies H cnt"
  shows "tallies H' (bump (Some (i, j)) cnt)"
proof (cases "has_edge H i j")
  case True
  with assms(1) have "incr_weight H i j = Inr H'"
    by (auto simp: homophily_link_def split: sum.splits)
  from tallies_incr[OF assms(2) this] show ?thesis .
next
  case False
  with assms(1) have "H' = add_edge_weight H i j (Weight 1)"
    by (auto simp: homophily_link_def)
  with tallies_new[OF assms(2) False] show ?thesis by simp
qed

lemma homophily_visit_tally:
  assumes "homophily_visit s n (map (\<lambda>i. (i, i mod hg)) xs) p_in p_out True i (H, c, k)
             = Inr (H', c', k')"
    and "tallies H cnt"
  shows "k' = snd (homophily_choice s n hg p_in p_out i k) \<and>
         tallies H' (bump (fst (homophily_choice s n hg p_in p_out i k)) cnt)"
proof (cases "rnd_randrange s n k")
  case (Inl e)
  with assms show ?thesis by (simp add: homophily_visit_def)
next
  case (Inr jg)
  obtain j g1 where jg: "jg = (j, g1)" by (cases jg)
  show ?thesis
  proof (cases "j = i")
    case True
    with assms Inr jg show ?thesis
      by (auto simp: homophily_visit_def homophily_choice_def tallies_none)
  next
    case ne: False
    obtain u g2 where r: "rnd_random s g1 = (u, g2)" by (cases "rnd_random s g1")
    let ?pr = "if i mod hg = j mod hg then p_in else p_out"
    have ch: "homophily_choice s n hg p_in p_out i k = (if u < ?pr then Some (i, j) else None, g2)"
      using Inr jg ne r by (simp add: homophily_choice_def)
    from assms(1) Inr jg ne r have
      res: "(if u < ?pr then (\<exists>c2. homophily_link True i j (H, c) = Inr (H', c2)) else H' = H)
           \<and> k' = g2"
      by (auto simp: homophily_visit_def map_of_groups
          split: if_splits option.splits sum.splits)
    show ?thesis
    proof (cases "u < ?pr")
      case True
      with res obtain c2 where "homophily_link True i j (H, c) = Inr (H', c2)" by auto
      from homophily_link_tally[OF this assms(2)] res ch True show ?thesis by simp
    next
      case False
      with res ch assms(2) show ?thesis by (simp add: tallies_none)
    qed
  qed
qed

lemma bump_count:
  "bump c cnt e + count_list cs e
     = cnt e + count_list (case c of None \<Rightarrow> cs | Some x \<Rightarrow> x # cs) e"
  by (cases c) (auto simp: bump_def)

lemma visits_tally:
  assumes v: "\<And>i H c k H' c' k' cnt. visit i (H, c, k) = Inr (H', c', k') \<Longrightarrow> tallies H cnt
      \<Longrightarrow> k' = snd (choice i k) \<and> tallies H' (bump (fst (choice i k)) cnt)"
  shows "for_each visit xs (H, c, k) = Inr (H', c', k') \<Longrightarrow> tallies H cnt
      \<Longrightarrow> k' = snd (selections choice xs k) \<and>
          tallies H' (\<lambda>e. cnt e + count_list (fst (selections choice xs k)) e)"
proof (induction xs arbitrary: H c k cnt)
  case Nil
  then show ?case by simp
next
  case (Cons i xs)
  from Cons.prems(1) obtain H1 c1 k1 where
    a: "visit i (H, c, k) = Inr (H1, c1, k1)"
    and r: "for_each visit xs (H1, c1, k1) = Inr (H', c', k')"
    by (auto split: sum.splits)
  from v[OF a Cons.prems(2)] have k1: "k1 = snd (choice i k)"
    and t1: "tallies H1 (bump (fst (choice i k)) cnt)" by simp_all
  from Cons.IH[OF r t1] have k': "k' = snd (selections choice xs k1)"
    and t': "tallies H' (\<lambda>e. bump (fst (choice i k)) cnt e
                + count_list (fst (selections choice xs k1)) e)" by simp_all
  obtain ci where ci: "choice i k = (ci, k1)" using k1 by (cases "choice i k") simp
  obtain cs k2 where cs: "selections choice xs k1 = (cs, k2)"
    by (cases "selections choice xs k1")
  from k' t' show ?case
    by (simp add: ci cs bump_count)
qed

lemma steps_tally:
  assumes v: "\<And>i H c k H' c' k' cnt. visit i (H, c, k) = Inr (H', c', k') \<Longrightarrow> tallies H cnt
      \<Longrightarrow> k' = snd (choice i k) \<and> tallies H' (bump (fst (choice i k)) cnt)"
    and st: "\<And>t H out k H' out' k'. step t (H, out, k) = Inr (H', out', k')
      \<Longrightarrow> \<exists>c c'. for_each visit xs (H, c, k) = Inr (H', c', k')"
  shows "for_each step ts (H, out, k) = Inr (H', out', k') \<Longrightarrow> tallies H cnt
      \<Longrightarrow> k' = snd (run_selections choice xs (length ts) k) \<and>
          tallies H' (\<lambda>e. cnt e + count_list (fst (run_selections choice xs (length ts) k)) e)"
proof (induction ts arbitrary: H out k cnt)
  case Nil
  then show ?case by simp
next
  case (Cons t ts)
  from Cons.prems(1) obtain H1 o1 k1 where
    a: "step t (H, out, k) = Inr (H1, o1, k1)"
    and r: "for_each step ts (H1, o1, k1) = Inr (H', out', k')"
    by (auto split: sum.splits)
  from st[OF a] obtain c c' where f: "for_each visit xs (H, c, k) = Inr (H1, c', k1)" by blast
  from visits_tally[of visit choice, OF v f Cons.prems(2)]
  have k1: "k1 = snd (selections choice xs k)"
    and t1: "tallies H1 (\<lambda>e. cnt e + count_list (fst (selections choice xs k)) e)" by simp_all
  from Cons.IH[OF r t1] have k': "k' = snd (run_selections choice xs (length ts) k1)"
    and t': "tallies H' (\<lambda>e. cnt e + count_list (fst (selections choice xs k)) e
                + count_list (fst (run_selections choice xs (length ts) k1)) e)" by simp_all
  obtain cs where cs: "selections choice xs k = (cs, k1)"
    using k1 by (cases "selections choice xs k") simp
  obtain ds k2 where ds: "run_selections choice xs (length ts) k1 = (ds, k2)"
    by (cases "run_selections choice xs (length ts) k1")
  from k' t' show ?case
    by (simp add: cs ds add.assoc)
qed

lemma tallies_start: "edges G = [] \<Longrightarrow> tallies G (\<lambda>e. 0)"
  by (simp add: tallies_def reinforced_def)

lemma length_steps: "length (py_range2 1 (ts + 1)) = nat ts"
  by (simp add: py_range2_def)

lemma random_run_tally:
  assumes "generate_random_graph s n True ts p True g = Inr (G, out, g')"
  shows "map_of (edges G) e
     = reinforced (count_list (fst (run_selections (random_choice s n p) (py_range n) (nat ts) g)) e)"
proof -
  let ?G0 = "add_nodes_from empty_graph (py_range n)"
  from assms have r: "for_each (random_step s n p True) (py_range2 1 (ts + 1)) (?G0, [], g)
      = Inr (G, out, g')"
    by (simp add: generate_random_graph_def)
  have t0: "tallies ?G0 (\<lambda>e. 0)" by (rule tallies_start) (simp add: empty_graph_def)
  have "tallies G (\<lambda>e. 0 + count_list (fst (run_selections (random_choice s n p) (py_range n)
      (length (py_range2 1 (ts + 1))) g)) e)"
  proof (rule steps_tally[of "random_visit s n p True" "random_choice s n p"
        "random_step s n p True" "py_range n", OF _ _ r t0, THEN conjunct2])
    fix i H c k H' c' k' cnt
    assume "random_visit s n p True i (H, c, k) = Inr (H', c', k')" "tallies H cnt"
    then show "k' = snd (random_choice s n p i k) \<and>
        tallies H' (bump (fst (random_choice s n p i k)) cnt)"
      by (rule random_visit_tally)
  next
    fix t H out k H' out' k'
    assume "random_step s n p True t (H, out, k) = Inr (H', out', k')"
    then show "\<exists>c c'. for_each (random_visit s n p True) (py_range n) (H, c, k) = Inr (H', c', k')"
      by (auto simp: random_step_def split: sum.splits)
  qed
  then show ?thesis by (cases e) (simp add: tallies_def length_steps)
qed

lemma homophily_run_tally:
  assumes "generate_homophily_graph s n True ts hg p_in p_out True g = Inr (G, out, g')"
  shows "map_of (edges G) e
     = reinforced (count_list (fst (run_selections (homophily_choice s n hg p_in p_out)
         (py_range n) (nat ts) g)) e)"
proof -
  let ?groups = "map (\<lambda>i. (i, i mod hg)) (py_range n)"
  let ?G0 = "(add_nodes_from empty_graph (py_range n))\<lparr>node_group := ?groups\<rparr>"
  from assms have r: "for_each (homophily_step s n ?groups p_in p_out True)
      (py_range2 1 (ts + 1)) (?G0, [], g) = Inr (G, out, g')"
    by (simp add: generate_homophily_graph_def Let_def split: if_splits)
  have t0: "tallies ?G0 (\<lambda>e. 0)" by (rule tallies_start) (simp add: empty_graph_def)
  have "tallies G (\<lambda>e. 0 + count_list (fst (run_selections (homophily_choice s n hg p_in p_out)
      (py_range n) (length (py_range2 1 (ts + 1))) g)) e)"
  proof (rule steps_tally[of "homophily_visit s n ?groups p_in p_out True"
        "homophily_choice s n hg p_in p_out"
        "homophily_step s n ?groups p_in p_out True" "py_range n", OF _ _ r t0, THEN conjunct2])
    fix i H c k H' c' k' cnt
    assume "homophily_visit s n ?groups p_in p_out True i (H, c, k) = Inr (H', c', k')"
      "tallies H cnt"
    then show "k' = snd (homophily_choice s n hg p_in p_out i k) \<and>
        tallies H' (bump (fst (homophily_choice s n hg p_in p_out i k)) cnt)"
      by (rule homophily_visit_tally)
  next
    fix t H out k H' out' k'
    assume "homophily_step s n ?groups p_in p_out True t (H, out, k) = Inr (H', out', k')"
    then show "\<exists>c c'. for_each (homophily_visit s n ?groups p_in p_out True) (py_range n)
        (H, c, k) = Inr (H', c', k')"
      by (auto simp: homophily_step_def split: sum.splits)
  qed
  then show ?thesis by (cases e) (simp add: tallies_def length_steps)
qed

lemma run_selections_add:
  "run_selections choice xs (a + b) g
     = (case run_selections choice xs a g of (cs, g1) \<Rightarrow>
          case run_selections choice xs b g1 of (ds, g2) \<Rightarrow> (cs @ ds, g2))"
  by (induction a arbitrary: g) (auto split: prod.splits)

lemma run_selections_mono:
  assumes "a \<le> b"
  shows "count_list (fst (run_selections choice xs a g)) e
       \<le> count_list (fst (run_selections choice xs b g)) e"
proof -
  from assms obtain d where "b = a + d" by (auto simp: le_iff_add)
  then show ?thesis by (simp add: run_selections_add split: prod.splits)
qed

lemma weight_of_reinforced:
  "map_of (edges G) e = reinforced k \<Longrightarrow> weight_of G e = real k"
  by (cases k) (auto simp: weight_of_def reinforced_def)

lemma incr_weight_lookup:
  assumes "incr_weight H i j = Inr H'" and "map_of (edges H) (i, j) = Some (Weight w)"
  shows "map_of (edges H') (i, j) = Some (Weight (w + 1))"
  using assms by (auto simp: incr_weight_def update_conv')

lemma random_visit_reselect:
  assumes "random_visit s n p True i (H, c, k) = Inr (H', c', k')"
    and "fst (random_choice s n p i k) = Some e"
    and "map_of (edges H) e = Some (Weight w)"
  shows "map_of (edges H') e = Some (Weight (w + 1))"
proof -
  from assms(2) obtain j g2 where e: "e = (i, j)" and ne: "j \<noteq> i"
    and u: "fst (rnd_random s k) < p"
    and j: "rnd_randrange s n (snd (rnd_random s k)) = Inr (j, g2)"
    by (auto simp: random_choice_def split: prod.splits if_splits sum.splits)
  from assms(3) e have h: "has_edge H i j" by (simp add: has_edge_def)
  with assms(1) u j ne have "incr_weight H i j = Inr H'"
    by (auto simp: random_visit_def split: prod.splits sum.splits)
  from incr_weight_lookup[OF this] assms(3) e show ?thesis by simp
qed

lemma homophily_visit_reselect:
  assumes "homophily_visit s n (map (\<lambda>i. (i, i mod hg)) xs) p_in p_out True i (H, c, k)
             = Inr (H', c', k')"
    and "fst (homophily_choice s n hg p_in p_out i k) = Some e"
    and "map_of (edges H) e = Some (Weight w)"
  shows "map_of (edges H') e = Some (Weight (w + 1))"
proof -
  from assms(2) obtain j g1 where e: "e = (i, j)" and ne: "j \<noteq> i"
    and j: "rnd_randrange s n k = Inr (j, g1)"
    and u: "fst (rnd_random s g1) < (if i mod hg = j mod hg then p_in else p_out)"
    by (auto simp: homophily_choice_def split: prod.splits if_splits sum.splits)
  from assms(3) e have h: "has_edge H i j" by (simp add: has_edge_def)
  from assms(1) j ne u obtain c2 where "homophily_link True i j (H, c) = Inr (H', c2)"
    by (auto simp: homophily_visit_def map_of_groups
        split: prod.splits sum.splits option.splits if_splits)
  with h have "incr_weight H i j = Inr H'"
    by (auto simp: homophily_link_def split: sum.splits)
  from incr_weight_lookup[OF this] assms(3) e show ?thesis by simp
qed

text \<open>
  C7. In dynamic weighted mode of the random and of the homophily generator: a visit that
  re-selects an edge which carries the number \<open>w\<close> leaves \<open>w + 1\<close> on it; after a run
  of \<open>time_steps\<close> steps an edge that was selected \<open>k > 0\<close> times carries
  \<open>1 + (k - 1)\<close>, one for its creation and one for each re-selection, and a pair that
  was never selected is no edge; and on the same stream a longer run leaves on every edge
  at least the weight that a shorter run leaves.
\<close>

theorem weight_counts_selections:
  "(random_visit s n p True i (H, c, k) = Inr (H', c', k') \<longrightarrow>
      fst (random_choice s n p i k) = Some e \<longrightarrow> map_of (edges H) e = Some (Weight w) \<longrightarrow>
      map_of (edges H') e = Some (Weight (w + 1))) \<and>
   (homophily_visit s n (map (\<lambda>i. (i, i mod hg)) (py_range n)) p_in p_out True i (H, c, k)
        = Inr (H', c', k') \<longrightarrow>
      fst (homophily_choice s n hg p_in p_out i k) = Some e \<longrightarrow>
      map_of (edges H) e = Some (Weight w) \<longrightarrow>
      map_of (edges H') e = Some (Weight (w + 1))) \<and>
   (generate_random_graph s n True ts p True g = Inr (G, out, g') \<longrightarrow>
      map_of (edges G) e
        = reinforced (count_list
            (fst (run_selections (random_choice s n p) (py_range n) (nat ts) g)) e)) \<and>
   (generate_homophily_graph s n True ts hg p_in p_out True g = Inr (G, out, g') \<longrightarrow>
      map_of (edges G) e
        = reinforced (count_list
            (fst (run_selections (homophily_choice s n hg p_in p_out) (py_range n) (nat ts) g))
            e)) \<and>
   (generate_random_graph s n True ts p True g = Inr (G, out, g') \<longrightarrow> ts \<le> ts2 \<longrightarrow>
      generate_random_graph s n True ts2 p True g = Inr (G2, out2, g2) \<longrightarrow>
      weight_of G e \<le> weight_of G2 e) \<and>
   (generate_homophily_graph s n True ts hg p_in p_out True g = Inr (G, out, g') \<longrightarrow>
      ts \<le> ts2 \<longrightarrow>
      generate_homophily_graph s n True ts2 hg p_in p_out True g = Inr (G2, out2, g2) \<longrightarrow>
      weight_of G e \<le> weight_of G2 e)"
proof (intro conjI impI)
  assume "random_visit s n p True i (H, c, k) = Inr (H', c', k')"
    "fst (random_choice s n p i k) = Some e" "map_of (edges H) e = Some (Weight w)"
  then show "map_of (edges H') e = Some (Weight (w + 1))" by (rule random_visit_reselect)
next
  assume "homophily_visit s n (map (\<lambda>i. (i, i mod hg)) (py_range n)) p_in p_out True i (H, c, k)
        = Inr (H', c', k')"
    "fst (homophily_choice s n hg p_in p_out i k) = Some e"
    "map_of (edges H) e = Some (Weight w)"
  then show "map_of (edges H') e = Some (Weight (w + 1))" by (rule homophily_visit_reselect)
next
  assume "generate_random_graph s n True ts p True g = Inr (G, out, g')"
  then show "map_of (edges G) e
        = reinforced (count_list
            (fst (run_selections (random_choice s n p) (py_range n) (nat ts) g)) e)"
    by (rule random_run_tally)
next
  assume "generate_homophily_graph s n True ts hg p_in p_out True g = Inr (G, out, g')"
  then show "map_of (edges G) e
        = reinforced (count_list
            (fst (run_selections (homophily_choice s n hg p_in p_out) (py_range n) (nat ts) g))
            e)"
    by (rule homophily_run_tally)
next
  assume a: "generate_random_graph s n True ts p True g = Inr (G, out, g')"
    and le: "ts \<le> ts2"
    and b: "generate_random_graph s n True ts2 p True g = Inr (G2, out2, g2)"
  from le have "nat ts \<le> nat ts2" by simp
  from run_selections_mono[OF this]
  show "weight_of G e \<le> weight_of G2 e"
    by (simp add: weight_of_reinforced[OF random_run_tally[OF a]]
        weight_of_reinforced[OF random_run_tally[OF b]])
next
  assume a: "generate_homophily_graph s n True ts hg p_in p_out True g = Inr (G, out, g')"
    and le: "ts \<le> ts2"
    and b: "generate_homophily_graph s n True ts2 hg p_in p_out True g = Inr (G2, out2, g2)"
  from le have "nat ts \<le> nat ts2" by simp
  from run_selections_mono[OF this]
  show "weight_of G e \<le> weight_of G2 e"
    by (simp add: weight_of_reinforced[OF homophily_run_tally[OF a]]
        weight_of_reinforced[OF homophily_run_tally[OF b]])
qed

theorem weight_counts_selections_witness:
  "random_visit (\<lambda>k. 1/3) 3 (1/2) True 0 (\<lparr>nodes = [0, 1, 2], edges = [((0, 1), Weight 1)], node_group = []\<rparr>, 0, 0) = Inr (\<lparr>nodes = [0, 1, 2], edges = [((0, 1), Weight 2)], node_group = []\<rparr>, 0, 2) \<and>
   fst (random_choice (\<lambda>k. 1/3) 3 (1/2) 0 0) = Some (0, 1) \<and>
   map_of (edges \<lparr>nodes = [0, 1, 2], edges = [((0, 1), Weight 1)], node_group = []\<rparr>) (0, 1) = Some (Weight 1) \<and>
   homophily_visit (\<lambda>k. 1/3) 3 (map (\<lambda>i. (i, i mod 2)) (py_range 3)) (1/2) (1/2) True 0 (\<lparr>nodes = [0, 1, 2], edges = [((0, 1), Weight 1)], node_group = []\<rparr>, 0, 0) = Inr (\<lparr>nodes = [0, 1, 2], edges = [((0, 1), Weight 2)], node_group = []\<rparr>, 0, 2) \<and>
   fst (homophily_choice (\<lambda>k. 1/3) 3 2 (1/2) (1/2) 0 0) = Some (0, 1) \<and>
   generate_random_graph (\<lambda>k. 1/3) 3 True 2 (1/2) True 0 = Inr (\<lparr>nodes = [0, 1, 2], edges = [((0, 1), Weight 2), ((2, 1), Weight 2)], node_group = []\<rparr>, [2, 0], 12) \<and>
   generate_random_graph (\<lambda>k. 1/3) 3 True 3 (1/2) True 0 = Inr (\<lparr>nodes = [0, 1, 2], edges = [((0, 1), Weight 3), ((2, 1), Weight 3)], node_group = []\<rparr>, [2, 0, 0], 18) \<and>
   generate_homophily_graph (\<lambda>k. 1/3) 3 True 2 2 (1/2) (1/2) True 0 = Inr (\<lparr>nodes = [0, 1, 2], edges = [((0, 1), Weight 2), ((2, 1), Weight 2)], node_group = [(0, 0), (1, 1), (2, 0)]\<rparr>, [2, 0], 10) \<and>
   generate_homophily_graph (\<lambda>k. 1/3) 3 True 3 2 (1/2) (1/2) True 0 = Inr (\<lparr>nodes = [0, 1, 2], edges = [((0, 1), Weight 3), ((2, 1), Weight 3)], node_group = [(0, 0), (1, 1), (2, 0)]\<rparr>, [2, 0, 0], 15) \<and>
   (2::int) \<le> 3 \<and>
   map_of (edges \<lparr>nodes = [0, 1, 2], edges = [((0, 1), Weight 2)], node_group = []\<rparr>) (0, 1) = Some (Weight (1 + 1)) \<and>
   map_of (edges \<lparr>nodes = [0, 1, 2], edges = [((0, 1), Weight 2), ((2, 1), Weight 2)], node_group = []\<rparr>) (0, 1) = reinforced (count_list (fst (run_selections (random_choice (\<lambda>k. 1/3) 3 (1/2)) (py_range 3) (nat 2) 0)) (0, 1)) \<and>
   map_of (edges \<lparr>nodes = [0, 1, 2], edges = [((0, 1), Weight 2), ((2, 1), Weight 2)], node_group = [(0, 0), (1, 1), (2, 0)]\<rparr>) (0, 1) = reinforced (count_list (fst (run_selections (homophily_choice (\<lambda>k. 1/3) 3 2 (1/2) (1/2)) (py_range 3) (nat 2) 0)) (0, 1)) \<and>
   weight_of \<lparr>nodes = [0, 1, 2], edges = [((0, 1), Weight 2), ((2, 1), Weight 2)], node_group = []\<rparr> (0, 1) \<le> weight_of \<lparr>nodes = [0, 1, 2], edges = [((0, 1), Weight 3), ((2, 1), Weight 3)], node_group = []\<rparr> (0, 1) \<and>
   weight_of \<lparr>nodes = [0, 1, 2], edges = [((0, 1), Weight 2), ((2, 1), Weight 2)], node_group = [(0, 0), (1, 1), (2, 0)]\<rparr> (0, 1) \<le> weight_of \<lparr>nodes = [0, 1, 2], edges = [((0, 1), Weight 3), ((2, 1), Weight 3)], node_group = [(0, 0), (1, 1), (2, 0)]\<rparr> (0, 1)"
proof -
  have v1: "random_visit (\<lambda>k. 1/3) 3 (1/2) True 0 (\<lparr>nodes = [0, 1, 2], edges = [((0, 1), Weight 1)], node_group = []\<rparr>, 0, 0) = Inr (\<lparr>nodes = [0, 1, 2], edges = [((0, 1), Weight 2)], node_group = []\<rparr>, 0, 2)"
    by code_simp
  have c1: "fst (random_choice (\<lambda>k. 1/3) 3 (1/2) 0 0) = Some (0, 1)"
    by code_simp
  have m: "map_of (edges \<lparr>nodes = [0, 1, 2], edges = [((0, 1), Weight 1)], node_group = []\<rparr>) (0, 1) = Some (Weight 1)"
    by code_simp
  have v2: "homophily_visit (\<lambda>k. 1/3) 3 (map (\<lambda>i. (i, i mod 2)) (py_range 3)) (1/2) (1/2) True 0 (\<lparr>nodes = [0, 1, 2], edges = [((0, 1), Weight 1)], node_group = []\<rparr>, 0, 0) = Inr (\<lparr>nodes = [0, 1, 2], edges = [((0, 1), Weight 2)], node_group = []\<rparr>, 0, 2)"
    by code_simp
  have c2: "fst (homophily_choice (\<lambda>k. 1/3) 3 2 (1/2) (1/2) 0 0) = Some (0, 1)"
    by code_simp
  have r2: "generate_random_graph (\<lambda>k. 1/3) 3 True 2 (1/2) True 0 = Inr (\<lparr>nodes = [0, 1, 2], edges = [((0, 1), Weight 2), ((2, 1), Weight 2)], node_group = []\<rparr>, [2, 0], 12)"
    by code_simp
  have r3: "generate_random_graph (\<lambda>k. 1/3) 3 True 3 (1/2) True 0 = Inr (\<lparr>nodes = [0, 1, 2], edges = [((0, 1), Weight 3), ((2, 1), Weight 3)], node_group = []\<rparr>, [2, 0, 0], 18)"
    by code_simp
  have h2: "generate_homophily_graph (\<lambda>k. 1/3) 3 True 2 2 (1/2) (1/2) True 0 = Inr (\<lparr>nodes = [0, 1, 2], edges = [((0, 1), Weight 2), ((2, 1), Weight 2)], node_group = [(0, 0), (1, 1), (2, 0)]\<rparr>, [2, 0], 10)"
    by code_simp
  have h3: "generate_homophily_graph (\<lambda>k. 1/3) 3 True 3 2 (1/2) (1/2) True 0 = Inr (\<lparr>nodes = [0, 1, 2], edges = [((0, 1), Weight 3), ((2, 1), Weight 3)], node_group = [(0, 0), (1, 1), (2, 0)]\<rparr>, [2, 0, 0], 15)"
    by code_simp
  have le: "(2::int) \<le> 3"
    by code_simp
  from weight_counts_selections[of "\<lambda>k. 1/3" 3 "1/2" 0 _ 0 0 _ 0 2 "(0, 1)" 1 2 "1/2" "1/2"
      2 0 _ "[2, 0]" 12 3 _ "[2, 0, 0]" 18] v1 c1 m v2 c2 r2 r3 le
  have a: "map_of (edges \<lparr>nodes = [0, 1, 2], edges = [((0, 1), Weight 2)], node_group = []\<rparr>) (0, 1) = Some (Weight (1 + 1))" "map_of (edges \<lparr>nodes = [0, 1, 2], edges = [((0, 1), Weight 2), ((2, 1), Weight 2)], node_group = []\<rparr>) (0, 1) = reinforced (count_list (fst (run_selections (random_choice (\<lambda>k. 1/3) 3 (1/2)) (py_range 3) (nat 2) 0)) (0, 1))" "weight_of \<lparr>nodes = [0, 1, 2], edges = [((0, 1), Weight 2), ((2, 1), Weight 2)], node_group = []\<rparr> (0, 1) \<le> weight_of \<lparr>nodes = [0, 1, 2], edges = [((0, 1), Weight 3), ((2, 1), Weight 3)], node_group = []\<rparr> (0, 1)"
    by (simp_all only: simp_thms)
  from weight_counts_selections[of "\<lambda>k. 1/3" 3 "1/2" 0 _ 0 0 _ 0 2 "(0, 1)" 1 2 "1/2" "1/2"
      2 0 _ "[2, 0]" 10 3 _ "[2, 0, 0]" 15] h2 h3 le
  have b: "map_of (edges \<lparr>nodes = [0, 1, 2], edges = [((0, 1), Weight 2), ((2, 1), Weight 2)], node_group = [(0, 0), (1, 1), (2, 0)]\<rparr>) (0, 1) = reinforced (count_list (fst (run_selections (homophily_choice (\<lambda>k. 1/3) 3 2 (1/2) (1/2)) (py_range 3) (nat 2) 0)) (0, 1))" "weight_of \<lparr>nodes = [0, 1, 2], edges = [((0, 1), Weight 2), ((2, 1), Weight 2)], node_group = [(0, 0), (1, 1), (2, 0)]\<rparr> (0, 1) \<le> weight_of \<lparr>nodes = [0, 1, 2], edges = [((0, 1), Weight 3), ((2, 1), Weight 3)], node_group = [(0, 0), (1, 1), (2, 0)]\<rparr> (0, 1)"
    by (simp_all only: simp_thms)
  show ?thesis
    by (intro conjI v1 c1 m v2 c2 r2 r3 h2 h3 le a b)
qed

section \<open>The number of nodes\<close>

subsection \<open>Static generators\<close>

lemma nodes_add_node: "nodes (add_node G v) = (if v \<in> set (nodes G) then nodes G else nodes G @ [v])"
  by (simp add: add_node_def)

lemma nodes_add_nodes_from:
  "distinct (nodes G @ vs) \<Longrightarrow> nodes (add_nodes_from G vs) = nodes G @ vs"
  unfolding add_nodes_from_def
  by (induction vs arbitrary: G) (auto simp: nodes_add_node)

lemma nodes_start: "distinct vs \<Longrightarrow> nodes (add_nodes_from empty_graph vs) = vs"
  using nodes_add_nodes_from[of empty_graph vs] by (simp add: empty_graph_def)

lemma nodes_add_edge:
  "u \<in> set (nodes G) \<Longrightarrow> v \<in> set (nodes G) \<Longrightarrow> nodes (add_edge G u v) = nodes G"
  by (simp add: add_edge_def Let_def nodes_add_node)

lemma nodes_add_edge_weight:
  "u \<in> set (nodes G) \<Longrightarrow> v \<in> set (nodes G) \<Longrightarrow> nodes (add_edge_weight G u v a) = nodes G"
  by (simp add: add_edge_weight_def Let_def nodes_add_node)

lemma length_py_range: "length (py_range n) = nat n"
  by (simp add: py_range_def)

lemma distinct_py_range: "distinct (py_range n)"
  by (simp add: py_range_def)

lemma nodes_random_pair:
  assumes "i \<in> set (nodes (fst a))" and "j \<in> set (nodes (fst a))"
  shows "nodes (fst (random_pair s p ew i j a)) = nodes (fst a)"
  using assms
  by (cases a)
     (auto simp: random_pair_def rnd_random_def nodes_add_edge nodes_add_edge_weight
      split: prod.splits)

lemma random_static_nodes:
  "\<exists>G out g'. generate_random_graph s n False ts p ew g = Inr (G, out, g')
     \<and> nodes G = py_range n"
proof -
  have "\<exists>G g'. generate_random_graph s n False ts p ew g = Inr (G, [], g')"
    by (simp add: generate_random_graph_def split: prod.splits)
  then obtain G g' where r: "generate_random_graph s n False ts p ew g = Inr (G, [], g')"
    by blast
  have "nodes (fst (G, g')) = py_range n"
    by (rule random_static_inv[OF r, where P = "\<lambda>a. nodes (fst a) = py_range n"])
       (simp_all add: nodes_start distinct_py_range nodes_random_pair)
  with r show ?thesis by auto
qed

lemma homophily_pair_nodes:
  assumes "i \<in> set xs" and "j \<in> set xs" and "set xs \<subseteq> set (nodes (fst a))"
  shows "\<exists>b. homophily_pair s (map (\<lambda>i. (i, f i)) xs) p_in p_out ew i j a = Inr b
           \<and> nodes (fst b) = nodes (fst a)"
proof -
  from assms have "i \<in> set (nodes (fst a))" "j \<in> set (nodes (fst a))" by auto
  with assms(1,2) show ?thesis
    by (cases a)
       (auto simp: homophily_pair_def map_of_groups rnd_random_def nodes_add_edge_weight
        split: prod.splits)
qed

lemma homophily_static_nodes:
  assumes "hg \<noteq> 0 \<or> n \<le> 0"
  shows "\<exists>G out g'. generate_homophily_graph s n False ts hg p_in p_out ew g = Inr (G, out, g')
     \<and> nodes G = py_range n"
proof -
  let ?groups = "map (\<lambda>i. (i, i mod hg)) (py_range n)"
  let ?G1 = "(add_nodes_from empty_graph (py_range n))\<lparr>node_group := ?groups\<rparr>"
  let ?P = "\<lambda>st :: graph \<times> rng. nodes (fst st) = py_range n"
  have "\<exists>st'. for_each (\<lambda>i. for_each (homophily_pair s ?groups p_in p_out ew i) (py_range n))
      (py_range n) (?G1, g) = Inr st' \<and> ?P st'"
  proof (rule for_each_Inr[where P = ?P])
    show "?P (?G1, g)" by (simp add: nodes_start distinct_py_range)
  next
    fix i and a :: "graph \<times> rng"
    assume i: "i \<in> set (py_range n)" and a: "?P a"
    show "\<exists>b. for_each (homophily_pair s ?groups p_in p_out ew i) (py_range n) a = Inr b \<and> ?P b"
    proof (rule for_each_Inr[where P = ?P, OF a])
      fix j and c :: "graph \<times> rng"
      assume "j \<in> set (py_range n)" and c: "?P c"
      from homophily_pair_nodes[OF i this(1), of c s "\<lambda>i. i mod hg" p_in p_out ew] c
      show "\<exists>b. homophily_pair s ?groups p_in p_out ew i j c = Inr b \<and> ?P b" by auto
    qed
  qed
  then obtain G g' where
    "for_each (\<lambda>i. for_each (homophily_pair s ?groups p_in p_out ew i) (py_range n))
      (py_range n) (?G1, g) = Inr (G, g')" and "nodes G = py_range n"
    by auto
  moreover have "\<not> (hg = 0 \<and> py_range n \<noteq> [])"
    using assms by (auto simp: py_range_def)
  ultimately show ?thesis
    by (simp add: generate_homophily_graph_def Let_def)
qed

lemma nodes_ba_edge:
  assumes "fst e \<in> set (nodes (fst a))" and "snd e \<in> set (nodes (fst a))"
  shows "nodes (fst (ba_edge s ew e a)) = nodes (fst a)"
  using assms
  by (cases a; cases e)
     (auto simp: ba_edge_def rnd_random_def nodes_add_edge_weight split: prod.splits)

lemma preferential_static_nodes:
  assumes "base_on n (ba n m)"
  shows "\<exists>G out g'. generate_preferential_attachment_graph s ba n False ts m ew g
           = Some (Inr (G, out, g')) \<and> nodes G = py_range n"
proof -
  from assms obtain es where ba: "ba n m = Inr (py_range n, es)"
    and es: "\<forall>e \<in> set es. fst e \<in> set (py_range n) \<and> snd e \<in> set (py_range n)"
    by (auto simp: base_on_def py_range_def list_all_iff split: sum.splits)
  have "\<exists>G g'. generate_preferential_attachment_graph s ba n False ts m ew g
      = Some (Inr (G, [], g'))"
    by (simp add: generate_preferential_attachment_graph_def ba split: prod.splits)
  then obtain G g' where r: "generate_preferential_attachment_graph s ba n False ts m ew g
      = Some (Inr (G, [], g'))"
    by blast
  have "nodes (fst (G, g')) = py_range n"
  proof (rule preferential_static_inv[OF r, where P = "\<lambda>a. nodes (fst a) = py_range n"])
    fix ns es' assume "ba n m = Inr (ns, es')"
    with ba show "nodes (fst (add_nodes_from empty_graph ns, g)) = py_range n"
      by (simp add: nodes_start distinct_py_range)
  next
    fix ns es' e and a :: "graph \<times> rng"
    assume "ba n m = Inr (ns, es')" "e \<in> set es'" "nodes (fst a) = py_range n"
    with ba es show "nodes (fst (ba_edge s ew e a)) = py_range n"
      by (simp add: nodes_ba_edge)
  qed
  with r show ?thesis by auto
qed

subsection \<open>Dynamic preferential attachment: the nodes of a run that returns\<close>

lemma select_targets_inv:
  assumes "select_targets s m t ds tot st = Some st'" and "P (fst st)"
    and "\<And>g tg. P tg \<Longrightarrow> P (scan_degrees t (fst (rnd_uniform s 0 (real_of_int tot) g)) ds 0 tg)"
  shows "P (fst st') \<and> \<not> int (length (fst st')) < m"
proof -
  let ?Q = "\<lambda>s m t ds tot st st'.
      (P (fst st) \<and>
       (\<forall>g tg. P tg \<longrightarrow> P (scan_degrees t (fst (rnd_uniform s 0 (real_of_int tot) g)) ds 0 tg)))
      \<longrightarrow> P (fst st') \<and> \<not> int (length (fst st')) < m"
  have "?Q s m t ds tot st st'"
  proof (rule select_targets.raw_induct[OF _ assms(1), where P = ?Q])
    fix sel :: "stream \<Rightarrow> int \<Rightarrow> int \<Rightarrow> (int \<times> int) list \<Rightarrow> int \<Rightarrow> int list \<times> rng \<Rightarrow> (int list \<times> rng) option"
    fix z :: stream and k u and es :: "(int \<times> int) list" and n :: int and a b :: "int list \<times> rng"
    assume IH: "\<And>s k u es n a b. sel s k u es n a = Some b \<Longrightarrow> ?Q s k u es n a b"
      and eq: "(if int (length (fst a)) < k
                then case rnd_uniform z 0 (real_of_int n) (snd a) of
                       (r, g') \<Rightarrow> sel z k u es n (scan_degrees u r es 0 (fst a), g')
                else Some a) = Some b"
    show "?Q z k u es n a b"
    proof (cases "int (length (fst a)) < k")
      case True
      with eq have
        "sel z k u es n
           (scan_degrees u (fst (rnd_uniform z 0 (real_of_int n) (snd a))) es 0 (fst a),
            snd (rnd_uniform z 0 (real_of_int n) (snd a))) = Some b"
        by (simp split: prod.splits)
      from IH[OF this] show ?thesis by simp
    next
      case False
      with eq show ?thesis by auto
    qed
  qed
  with assms(2,3) show ?thesis by simp
qed

lemma scan_degrees_subset:
  "set targets \<subseteq> A \<Longrightarrow> fst ` set ds \<subseteq> A \<Longrightarrow> set (scan_degrees t r ds cum targets) \<subseteq> A"
  by (induction t r ds cum targets rule: scan_degrees.induct) auto

lemma nodes_degree: "fst ` set (degree G) = set (nodes G)"
proof -
  have "map fst (degree G) = nodes G" by (simp add: degree_def comp_def)
  then have "set (map fst (degree G)) = set (nodes G)" by simp
  then show ?thesis by simp
qed

lemma select_targets_nodes:
  assumes "select_targets s m t (degree G) tot ([], g) = Some (targets, g')"
  shows "set targets \<subseteq> set (nodes G)"
  using select_targets_inv[OF assms, where P = "\<lambda>tg. set tg \<subseteq> set (nodes G)"]
  by (simp add: scan_degrees_subset nodes_degree)

lemma closed_iff:
  "closed G \<longleftrightarrow> (\<forall>k \<in> fst ` set (edges G). fst k \<in> set (nodes G) \<and> snd k \<in> set (nodes G))"
  by (auto simp: closed_def list_all_iff)

lemma closed_add_node: "closed G \<Longrightarrow> closed (add_node G v)"
  by (auto simp: closed_iff nodes_add_node)

lemma set_nodes_add_edge: "set (nodes (add_edge G u v)) = insert u (insert v (set (nodes G)))"
  by (auto simp: add_edge_def Let_def nodes_add_node)

lemma set_nodes_add_edge_weight:
  "set (nodes (add_edge_weight G u v a)) = insert u (insert v (set (nodes G)))"
  by (auto simp: add_edge_weight_def Let_def nodes_add_node)

lemma closed_add_edge: "closed G \<Longrightarrow> closed (add_edge G u v)"
  by (auto simp: closed_iff keys_add_edge set_nodes_add_edge)

lemma closed_add_edge_weight: "closed G \<Longrightarrow> closed (add_edge_weight G u v a)"
  by (auto simp: closed_iff keys_add_edge_weight set_nodes_add_edge_weight)

lemma attach_nodes:
  "t \<in> set (nodes G) \<Longrightarrow> set targets \<subseteq> set (nodes G)
     \<Longrightarrow> nodes (fold (attach ew t) targets G) = nodes G"
  by (induction targets arbitrary: G) (auto simp: attach_def nodes_add_edge nodes_add_edge_weight)

lemma attach_closed: "closed G \<Longrightarrow> closed (fold (attach ew t) targets G)"
  by (induction targets arbitrary: G) (auto simp: attach_def closed_add_edge closed_add_edge_weight)

lemma pa_arrival_nodes:
  assumes "pa_arrival s m ew init t (G, out, g) = Some (G', out', g')"
  shows "nodes G' = nodes (add_node G t)" and "closed G \<Longrightarrow> closed G'"
proof -
  let ?G1 = "add_node G t"
  from assms obtain targets g1 where
    sel: "select_targets s m t (degree ?G1) (sum_list (map snd (degree ?G1))) ([], g)
            = Some (targets, g1)"
    and G': "G' = fold (attach ew t) targets ?G1"
    by (auto simp: pa_arrival_def Let_def split: option.splits)
  have t: "t \<in> set (nodes ?G1)" by (simp add: nodes_add_node)
  from attach_nodes[OF t select_targets_nodes[OF sel]] show "nodes G' = nodes ?G1"
    by (simp add: G')
  show "closed G \<Longrightarrow> closed G'" by (simp add: G' attach_closed closed_add_node)
qed

lemma pa_arrivals_nodes:
  "for_each_opt (pa_arrival s m ew init) ts (G, out, g) = Some (G', out', g')
     \<Longrightarrow> distinct (nodes G @ ts) \<Longrightarrow> nodes G' = nodes G @ ts"
proof (induction ts arbitrary: G out g)
  case Nil
  then show ?case by simp
next
  case (Cons t ts)
  from Cons.prems(1) obtain G1 o1 g1 where
    a: "pa_arrival s m ew init t (G, out, g) = Some (G1, o1, g1)"
    and r: "for_each_opt (pa_arrival s m ew init) ts (G1, o1, g1) = Some (G', out', g')"
    by (auto split: option.splits)
  from pa_arrival_nodes(1)[OF a] Cons.prems(2) have n1: "nodes G1 = nodes G @ [t]"
    by (simp add: nodes_add_node)
  with Cons.prems(2) have "distinct (nodes G1 @ ts)" by simp
  from Cons.IH[OF r this] n1 show ?case by simp
qed

lemma seed_pair_nodes:
  assumes "u \<in> set (nodes H)" and "v \<in> set (nodes H)"
  shows "nodes (seed_pair ew u v H) = nodes H"
  using assms by (simp add: seed_pair_def nodes_add_edge_weight)

lemma seed_pair_closed: "closed H \<Longrightarrow> closed (seed_pair ew u v H)"
  by (simp add: seed_pair_def closed_add_edge_weight)

lemma seed_clique:
  "nodes (fold (\<lambda>u. fold (seed_pair ew u) (py_range k)) (py_range k)
      (add_nodes_from empty_graph (py_range k))) = py_range k \<and>
   closed (fold (\<lambda>u. fold (seed_pair ew u) (py_range k)) (py_range k)
      (add_nodes_from empty_graph (py_range k)))"
proof (rule fold_inv[where P = "\<lambda>H. nodes H = py_range k \<and> closed H"])
  show "nodes (add_nodes_from empty_graph (py_range k)) = py_range k \<and>
      closed (add_nodes_from empty_graph (py_range k))"
  proof
    show "nodes (add_nodes_from empty_graph (py_range k)) = py_range k"
      by (simp add: nodes_start distinct_py_range)
    have "edges (add_nodes_from empty_graph (py_range k)) = []"
      by (simp add: empty_graph_def)
    then show "closed (add_nodes_from empty_graph (py_range k))"
      by (simp add: closed_def)
  qed
next
  fix u a
  assume u: "u \<in> set (py_range k)" and a: "nodes a = py_range k \<and> closed a"
  show "nodes (fold (seed_pair ew u) (py_range k) a) = py_range k \<and>
      closed (fold (seed_pair ew u) (py_range k) a)"
  proof (rule fold_inv[where P = "\<lambda>H. nodes H = py_range k \<and> closed H", OF a])
    fix v H
    assume "v \<in> set (py_range k)" "nodes H = py_range k \<and> closed H"
    with u show "nodes (seed_pair ew u v H) = py_range k \<and> closed (seed_pair ew u v H)"
      by (simp add: seed_pair_nodes seed_pair_closed)
  qed
qed

lemma distinct_arrivals: "distinct (py_range k @ py_range2 k n)"
  by (auto simp: py_range_def py_range2_def)

lemma preferential_dynamic_nodes:
  assumes "generate_preferential_attachment_graph s ba n True ts m ew g
             = Some (Inr (G, out, g'))"
  shows "nodes G = py_range (m + 1) @ py_range2 (m + 1) n"
proof -
  let ?init = "m + 1"
  let ?G1 = "fold (\<lambda>u. fold (seed_pair ew u) (py_range ?init)) (py_range ?init)
               (add_nodes_from empty_graph (py_range ?init))"
  from assms have r: "for_each_opt (pa_arrival s m ew ?init) (py_range2 ?init n)
      (?G1, [], g) = Some (G, out, g')"
    by (simp add: generate_preferential_attachment_graph_def Let_def split: option.splits)
  have n1: "nodes ?G1 = py_range ?init" using seed_clique[of ew ?init] by simp
  from pa_arrivals_nodes[OF r] n1 distinct_arrivals[of ?init n] show ?thesis by simp
qed

lemma length_seed_arrivals:
  "0 \<le> m + 1 \<Longrightarrow> m + 1 \<le> n \<Longrightarrow> length (py_range (m + 1) @ py_range2 (m + 1) n) = nat n"
  by (simp add: py_range_def py_range2_def)

subsection \<open>Dynamic preferential attachment: one target is always found\<close>

text \<open>
  The arriving node \<open>t\<close> is the last key of the degree dictionary and has degree 0, and
  \<open>r\<close> is at most the total degree: the scan stops at a node before \<open>t\<close>. So with
  \<open>edges_per_step = 1\<close> the \<^verbatim>\<open>while\<close> loop ends after one draw.
\<close>

lemma scan_hits:
  "ds \<noteq> [] \<Longrightarrow> t \<notin> fst ` set ds \<Longrightarrow> r \<le> real_of_int (cum + sum_list (map snd ds))
     \<Longrightarrow> scan_degrees t r (ds @ [(t, 0)]) cum [] \<noteq> []"
proof (induction ds arbitrary: cum)
  case Nil
  then show ?case by simp
next
  case (Cons d ds)
  obtain node deg where d: "d = (node, deg)" by (cases d)
  show ?case
  proof (cases "r \<le> real_of_int (cum + deg)")
    case True
    with Cons.prems(2) d show ?thesis by simp
  next
    case False
    show ?thesis
    proof (cases "ds = []")
      case True
      with Cons.prems(3) d False show ?thesis by simp
    next
      case ne: False
      from Cons.prems(3) d have "r \<le> real_of_int ((cum + deg) + sum_list (map snd ds))"
        by (simp add: add.assoc)
      from Cons.IH[OF ne _ this] Cons.prems(2) d False show ?thesis by simp
    qed
  qed
qed

lemma degree_fresh:
  assumes "closed G" and "t \<notin> set (nodes G)"
  shows "degree (add_node G t) = degree G @ [(t, 0)]"
proof -
  from assms have "filter (\<lambda>e. fst (fst e) = t) (edges G) = []"
    and "filter (\<lambda>e. snd (fst e) = t) (edges G) = []"
    by (auto simp: closed_def list_all_iff filter_empty_conv)
  with assms(2) show ?thesis by (simp add: degree_def nodes_add_node)
qed

lemma degree_total_nonneg: "0 \<le> sum_list (map snd (degree G))"
  by (rule sum_list_nonneg) (auto simp: degree_def)

lemma uniform_le:
  assumes "unit_stream s" and "0 \<le> tot"
  shows "fst (rnd_uniform s 0 (real_of_int tot) g) \<le> real_of_int tot"
proof -
  from assms(1) have "0 \<le> s g" "s g \<le> 1" by (auto simp: unit_stream_def less_imp_le)
  with assms(2) have "real_of_int tot * s g \<le> real_of_int tot * 1"
    by (intro mult_left_mono) simp_all
  then show ?thesis by (simp add: rnd_uniform_def)
qed

lemma select_targets_done:
  "\<not> int (length (fst st)) < m \<Longrightarrow> select_targets s m t ds tot st = Some st"
  by (subst select_targets.simps) simp

lemma select_targets_step:
  "int (length (fst st)) < m \<Longrightarrow>
     select_targets s m t ds tot st
       = select_targets s m t ds tot
           (scan_degrees t (fst (rnd_uniform s 0 (real_of_int tot) (snd st))) ds 0 (fst st),
            snd (rnd_uniform s 0 (real_of_int tot) (snd st)))"
  by (subst select_targets.simps) (simp split: prod.splits)

lemma pa_arrival_total:
  assumes "unit_stream s" and "m \<le> 1" and "t \<notin> set (nodes G)" and "closed G"
    and "m = 1 \<longrightarrow> nodes G \<noteq> []"
  shows "\<exists>st'. pa_arrival s m ew init t (G, out, g) = Some st'"
proof -
  let ?G1 = "add_node G t"
  let ?tot = "sum_list (map snd (degree ?G1))"
  have "\<exists>r. select_targets s m t (degree ?G1) ?tot ([], g) = Some r"
  proof (cases "m = 1")
    case False
    with assms(2) have "\<not> int (length (fst (([]::int list), g))) < m" by simp
    from select_targets_done[OF this] show ?thesis by blast
  next
    case True
    let ?r = "fst (rnd_uniform s 0 (real_of_int ?tot) g)"
    let ?tg = "scan_degrees t ?r (degree ?G1) 0 []"
    have d: "degree ?G1 = degree G @ [(t, 0)]" by (rule degree_fresh[OF assms(4,3)])
    from True assms(5) have ne: "degree G \<noteq> []" by (simp add: degree_def)
    from assms(3) have nt: "t \<notin> fst ` set (degree G)" by (simp add: nodes_degree)
    have "?r \<le> real_of_int ?tot" by (rule uniform_le[OF assms(1) degree_total_nonneg])
    then have "?r \<le> real_of_int (0 + sum_list (map snd (degree G)))" by (simp add: d)
    from scan_hits[OF ne nt this] have "?tg \<noteq> []" by (simp add: d)
    then have "\<not> int (length (fst (?tg, snd (rnd_uniform s 0 (real_of_int ?tot) g)))) < m"
      using True by (cases ?tg) simp_all
    from select_targets_done[OF this]
    have "select_targets s m t (degree ?G1) ?tot ([], g)
        = Some (?tg, snd (rnd_uniform s 0 (real_of_int ?tot) g))"
      using True by (subst select_targets_step) simp_all
    then show ?thesis by blast
  qed
  then show ?thesis
    by (auto simp: pa_arrival_def Let_def split: option.splits prod.splits)
qed

lemma pa_arrivals_total:
  assumes "unit_stream s" and "m \<le> 1"
  shows "distinct (nodes G @ ts) \<Longrightarrow> closed G \<Longrightarrow> m = 1 \<longrightarrow> nodes G \<noteq> []
     \<Longrightarrow> \<exists>st'. for_each_opt (pa_arrival s m ew init) ts (G, out, g) = Some st'"
proof (induction ts arbitrary: G out g)
  case Nil
  then show ?case by simp
next
  case (Cons t ts)
  from Cons.prems(1) have t: "t \<notin> set (nodes G)" by simp
  from pa_arrival_total[OF assms t Cons.prems(2,3)] obtain G1 o1 g1 where
    a: "pa_arrival s m ew init t (G, out, g) = Some (G1, o1, g1)"
    by (metis prod_cases3)
  from pa_arrival_nodes[OF a] t Cons.prems(2) have n1: "nodes G1 = nodes G @ [t]"
    and c1: "closed G1" by (simp_all add: nodes_add_node)
  from n1 Cons.prems(1) have "distinct (nodes G1 @ ts)" by simp
  moreover from n1 have "m = 1 \<longrightarrow> nodes G1 \<noteq> []" by simp
  ultimately have "\<exists>st'. for_each_opt (pa_arrival s m ew init) ts (G1, o1, g1) = Some st'"
    using c1 by (intro Cons.IH)
  with a show ?case by simp
qed

lemma preferential_dynamic_total:
  assumes "unit_stream s" and "m \<le> 1"
  shows "\<exists>G out g'. generate_preferential_attachment_graph s ba n True ts m ew g
           = Some (Inr (G, out, g'))"
proof -
  let ?init = "m + 1"
  let ?G1 = "fold (\<lambda>u. fold (seed_pair ew u) (py_range ?init)) (py_range ?init)
               (add_nodes_from empty_graph (py_range ?init))"
  from seed_clique[of ew ?init] have n1: "nodes ?G1 = py_range ?init" and c1: "closed ?G1"
    by simp_all
  have d: "distinct (nodes ?G1 @ py_range2 ?init n)"
    using distinct_arrivals[of ?init n] by (simp add: n1)
  have "length (nodes ?G1) = nat (m + 1)" unfolding n1 by (rule length_py_range)
  then have ne: "m = 1 \<longrightarrow> nodes ?G1 \<noteq> []" by auto
  from pa_arrivals_total[OF assms d c1 ne, of ew ?init "[]" g]
  obtain st' where "for_each_opt (pa_arrival s m ew ?init) (py_range2 ?init n) (?G1, [], g)
      = Some st'" by blast
  then show ?thesis
    by (cases st' rule: prod_cases3)
       (simp add: generate_preferential_attachment_graph_def Let_def)
qed

subsection \<open>Dynamic preferential attachment: a run that never returns\<close>

text \<open>
  With two targets to find and a stream of draws that are all 0, every scan stops at the
  first node: \<^verbatim>\<open>targets\<close> never gets its second member.
\<close>

lemma select_targets_stuck:
  assumes "\<forall>k. s k = 0" and "0 \<le> deg" and "2 \<le> m"
  shows "select_targets s m t ((v, deg) # ds) tot ([], g) = None"
proof (rule ccontr)
  assume "select_targets s m t ((v, deg) # ds) tot ([], g) \<noteq> None"
  then obtain st' where r: "select_targets s m t ((v, deg) # ds) tot ([], g) = Some st'"
    by blast
  let ?P = "\<lambda>tg :: int list. set tg \<subseteq> {v} \<and> distinct tg"
  have "?P (fst st') \<and> \<not> int (length (fst st')) < m"
  proof (rule select_targets_inv[OF r, where P = ?P])
    show "?P (fst (([]::int list), g))" by simp
  next
    fix k tg assume "?P tg"
    with assms(1,2)
    show "?P (scan_degrees t (fst (rnd_uniform s 0 (real_of_int tot) k)) ((v, deg) # ds) 0 tg)"
      by (auto simp: rnd_uniform_def)
  qed
  then have "distinct (fst st')" "set (fst st') \<subseteq> {v}" "m \<le> int (length (fst st'))"
    by auto
  from this(1) have "length (fst st') = card (set (fst st'))" by (simp add: distinct_card)
  also from \<open>set (fst st') \<subseteq> {v}\<close> have "\<dots> \<le> card {v}" by (intro card_mono) auto
  finally have "length (fst st') \<le> 1" by simp
  with \<open>m \<le> int (length (fst st'))\<close> assms(3) show False by simp
qed

lemma never_returns:
  "generate_preferential_attachment_graph (\<lambda>k. 0) star_base 4 True 0 2 False 0 = None"
proof -
  let ?G1 = "\<lparr>nodes = [0, 1, 2],
      edges = [((0, 1), WeightNone), ((0, 2), WeightNone), ((1, 0), WeightNone),
               ((1, 2), WeightNone), ((2, 0), WeightNone), ((2, 1), WeightNone)],
      node_group = []\<rparr>"
  have seed: "fold (\<lambda>u. fold (seed_pair False u) (py_range (2 + 1))) (py_range (2 + 1))
      (add_nodes_from empty_graph (py_range (2 + 1))) = ?G1"
    by code_simp
  have ts: "py_range2 (2 + 1) 4 = [3]" by code_simp
  have d: "degree (add_node ?G1 3) = (0, 4) # [(1, 4), (2, 4), (3, 0)]" by code_simp
  have "pa_arrival (\<lambda>k. 0) 2 False (2 + 1) 3 (?G1, [], 0) = None"
    unfolding pa_arrival_def Let_def prod.case d
    by (subst select_targets_stuck) simp_all
  then show ?thesis
    unfolding generate_preferential_attachment_graph_def Let_def seed ts by simp
qed

lemma count_py_range: "0 \<le> n \<Longrightarrow> nodes G = py_range n \<Longrightarrow> int (number_of_nodes G) = n"
  by (simp add: number_of_nodes_def length_py_range)

text \<open>
  C4, as amended. For \<open>num_agents \<ge> 0\<close> the static random generator returns a graph
  with exactly \<open>num_agents\<close> nodes; so does the static homophily generator when
  \<open>homophily_groups\<close> is not 0 (or there is no node), and the static preferential
  generator when the library returns a base graph on the nodes \<open>0, \<dots>, num_agents - 1\<close>.
  A dynamic preferential run that returns has exactly \<open>num_agents\<close> nodes when
  \<open>0 \<le> edges_per_step + 1 \<le> num_agents\<close>, the seed clique fitting in; and with draws in
  \<open>[0, 1)\<close> and \<open>edges_per_step \<le> 1\<close> the run does return.
\<close>

theorem node_count:
  "(0 \<le> n \<longrightarrow>
      (\<exists>G out g'. generate_random_graph s n False ts p ew g = Inr (G, out, g')
         \<and> int (number_of_nodes G) = n)) \<and>
   (0 \<le> n \<longrightarrow> hg \<noteq> 0 \<or> n = 0 \<longrightarrow>
      (\<exists>G out g'. generate_homophily_graph s n False ts hg p_in p_out ew g = Inr (G, out, g')
         \<and> int (number_of_nodes G) = n)) \<and>
   (0 \<le> n \<longrightarrow> base_on n (ba n m) \<longrightarrow>
      (\<exists>G out g'. generate_preferential_attachment_graph s ba n False ts m ew g
           = Some (Inr (G, out, g'))
         \<and> int (number_of_nodes G) = n)) \<and>
   (0 \<le> m + 1 \<longrightarrow> m + 1 \<le> n \<longrightarrow>
      generate_preferential_attachment_graph s ba n True ts m ew g = Some (Inr (G, out, g'))
      \<longrightarrow> int (number_of_nodes G) = n) \<and>
   (unit_stream s \<longrightarrow> m \<le> 1 \<longrightarrow>
      (\<exists>G out g'. generate_preferential_attachment_graph s ba n True ts m ew g
           = Some (Inr (G, out, g'))))"
proof (intro conjI impI)
  assume n: "0 \<le> n"
  from random_static_nodes[of s n ts p ew g] n
  show "\<exists>G out g'. generate_random_graph s n False ts p ew g = Inr (G, out, g')
         \<and> int (number_of_nodes G) = n"
    by (auto dest: count_py_range)
next
  assume n: "0 \<le> n" and "hg \<noteq> 0 \<or> n = 0"
  then have "hg \<noteq> 0 \<or> n \<le> 0" by auto
  from homophily_static_nodes[OF this, of s ts p_in p_out ew g] n
  show "\<exists>G out g'. generate_homophily_graph s n False ts hg p_in p_out ew g = Inr (G, out, g')
         \<and> int (number_of_nodes G) = n"
    by (auto dest: count_py_range)
next
  assume n: "0 \<le> n" and b: "base_on n (ba n m)"
  from preferential_static_nodes[of n ba m s ts ew g] b n
  show "\<exists>G out g'. generate_preferential_attachment_graph s ba n False ts m ew g
           = Some (Inr (G, out, g')) \<and> int (number_of_nodes G) = n"
    by (auto dest: count_py_range)
next
  assume m: "0 \<le> m + 1" "m + 1 \<le> n"
    and r: "generate_preferential_attachment_graph s ba n True ts m ew g
              = Some (Inr (G, out, g'))"
  from preferential_dynamic_nodes[OF r] length_seed_arrivals[OF m] m
  show "int (number_of_nodes G) = n"
    by (simp add: number_of_nodes_def)
next
  assume "unit_stream s" "m \<le> 1"
  then show "\<exists>G out g'. generate_preferential_attachment_graph s ba n True ts m ew g
           = Some (Inr (G, out, g'))"
    by (rule preferential_dynamic_total)
qed

theorem node_count_witness:
  "(0::int) \<le> 3 \<and> (2::int) \<noteq> 0 \<and> base_on 3 (star_base 3 1) \<and> (0::int) \<le> 1 + 1 \<and>
   (1::int) + 1 \<le> 3 \<and> unit_stream (\<lambda>k. 1/3) \<and> (1::int) \<le> 1 \<and>
   (\<exists>G out g'. generate_random_graph (\<lambda>k. 1/3) 3 False 1 (1/2) False 0 = Inr (G, out, g')
      \<and> int (number_of_nodes G) = 3) \<and>
   (\<exists>G out g'. generate_homophily_graph (\<lambda>k. 1/3) 3 False 1 2 (1/2) (1/4) False 0
        = Inr (G, out, g')
      \<and> int (number_of_nodes G) = 3) \<and>
   (\<exists>G out g'. generate_preferential_attachment_graph (\<lambda>k. 1/3) star_base 3 False 1 1 False 0
        = Some (Inr (G, out, g'))
      \<and> int (number_of_nodes G) = 3) \<and>
   generate_preferential_attachment_graph (\<lambda>k. 1/3) star_base 3 True 1 1 False 0
     = Some (Inr (\<lparr>nodes = [0, 1, 2], edges = [((0, 1), WeightNone), ((1, 0), WeightNone), ((2, 0), NoWeight)], node_group = []\<rparr>, [(1, 2, 1)], 1)) \<and>
   int (number_of_nodes \<lparr>nodes = [0, 1, 2], edges = [((0, 1), WeightNone), ((1, 0), WeightNone), ((2, 0), NoWeight)], node_group = []\<rparr>) = 3"
proof -
  have a: "(0::int) \<le> 3" "(2::int) \<noteq> 0" "(0::int) \<le> 1 + 1" "(1::int) + 1 \<le> 3" "(1::int) \<le> 1"
    by simp_all
  have b: "base_on 3 (star_base 3 1)" by code_simp
  have u: "unit_stream (\<lambda>k. 1/3)" by (simp add: unit_stream_def)
  have d: "generate_preferential_attachment_graph (\<lambda>k. 1/3) star_base 3 True 1 1 False 0
     = Some (Inr (\<lparr>nodes = [0, 1, 2], edges = [((0, 1), WeightNone), ((1, 0), WeightNone), ((2, 0), NoWeight)], node_group = []\<rparr>, [(1, 2, 1)], 1))"
    by code_simp
  note t = node_count[of 3 "\<lambda>k. 1/3" 1 "1/2" False 0 2 "1/2" "1/4" star_base 1
      "\<lparr>nodes = [0, 1, 2], edges = [((0, 1), WeightNone), ((1, 0), WeightNone), ((2, 0), NoWeight)], node_group = []\<rparr>" "[(1, 2, 1)]" 1]
  from t a have c1: "\<exists>G out g'. generate_random_graph (\<lambda>k. 1/3) 3 False 1 (1/2) False 0
      = Inr (G, out, g') \<and> int (number_of_nodes G) = 3"
    by blast
  from t a have c2: "\<exists>G out g'. generate_homophily_graph (\<lambda>k. 1/3) 3 False 1 2 (1/2) (1/4) False 0
      = Inr (G, out, g') \<and> int (number_of_nodes G) = 3"
    by blast
  from t a b have c3: "\<exists>G out g'. generate_preferential_attachment_graph (\<lambda>k. 1/3) star_base 3
      False 1 1 False 0 = Some (Inr (G, out, g')) \<and> int (number_of_nodes G) = 3"
    by blast
  from t a d have c4: "int (number_of_nodes \<lparr>nodes = [0, 1, 2], edges = [((0, 1), WeightNone), ((1, 0), WeightNone), ((2, 0), NoWeight)], node_group = []\<rparr>) = 3"
    by blast
  show ?thesis
    by (intro conjI a b u c1 c2 c3 d c4)
qed

text \<open>
  C4 as stated fails. With \<open>num_agents = 1\<close> and \<open>edges_per_step = 1\<close> the dynamic
  preferential generator returns its seed clique of two nodes; with
  \<open>edges_per_step = 2\<close>, four agents and draws that are all 0 it does not return.
\<close>

theorem node_count_counterexample:
  "generate_preferential_attachment_graph (\<lambda>k. 1/3) star_base 1 True 1 1 False 0
     = Some (Inr (\<lparr>nodes = [0, 1], edges = [((0, 1), WeightNone), ((1, 0), WeightNone)],
                   node_group = []\<rparr>, [], 0)) \<and>
   int (number_of_nodes \<lparr>nodes = [0, 1], edges = [((0, 1), WeightNone), ((1, 0), WeightNone)],
                   node_group = []\<rparr>) \<noteq> 1 \<and>
   generate_preferential_attachment_graph (\<lambda>k. 0) star_base 4 True 0 2 False 0 = None"
proof (intro conjI)
  show "generate_preferential_attachment_graph (\<lambda>k. 1/3) star_base 1 True 1 1 False 0
     = Some (Inr (\<lparr>nodes = [0, 1], edges = [((0, 1), WeightNone), ((1, 0), WeightNone)],
                   node_group = []\<rparr>, [], 0))"
    by code_simp
  show "int (number_of_nodes \<lparr>nodes = [0, 1],
      edges = [((0, 1), WeightNone), ((1, 0), WeightNone)], node_group = []\<rparr>) \<noteq> 1"
    by (simp add: number_of_nodes_def)
  show "generate_preferential_attachment_graph (\<lambda>k. 0) star_base 4 True 0 2 False 0 = None"
    by (rule never_returns)
qed

section \<open>Edge weights: creation, draws and attributes\<close>

lemma carries_iff: "carries A G \<longleftrightarrow> (\<forall>e \<in> set (edges G). snd e \<in> A)"
  by (simp add: carries_def list_all_iff)

lemma carries_mono: "A \<subseteq> B \<Longrightarrow> carries A G \<Longrightarrow> carries B G"
  by (auto simp: carries_iff)

lemma carries_add_edge_weight:
  assumes "a \<in> A" and "carries A G"
  shows "carries A (add_edge_weight G u v a)"
proof -
  have "set (edges (add_edge_weight G u v a)) \<subseteq> insert ((u, v), a) (set (edges G))"
    by (simp add: add_edge_weight_def Let_def set_update_subset)
  with assms show ?thesis by (auto simp: carries_iff)
qed

lemma carries_add_edge:
  assumes "NoWeight \<in> A" and "carries A G"
  shows "carries A (add_edge G u v)"
  using assms by (auto simp: carries_iff add_edge_def Let_def)

lemma carries_add_node [simp]: "carries A (add_node G v) = carries A G"
  by (simp add: carries_def)

lemma carries_start [simp]:
  "carries A (add_nodes_from empty_graph vs)"
  "carries A ((add_nodes_from empty_graph vs)\<lparr>node_group := x\<rparr>)"
  by (simp_all add: carries_def empty_graph_def)

subsection \<open>Unweighted configurations\<close>

lemma unweighted_random_visit:
  assumes "random_visit s n p False i (H, c, k) = Inr (H', c', k')" and "carries {NoWeight} H"
  shows "carries {NoWeight} H'"
proof -
  from assms(1) consider (same) "H' = H" | (new) j where "H' = add_edge H i j"
    by (auto simp: random_visit_def split: prod.splits if_splits sum.splits)
  then show ?thesis
    using assms(2) by cases (simp_all add: carries_add_edge)
qed

lemma unweighted_random_pair:
  "carries {NoWeight} (fst a) \<Longrightarrow> carries {NoWeight} (fst (random_pair s p False i j a))"
  by (cases a) (auto simp: random_pair_def rnd_random_def carries_add_edge)

lemma unweighted_random:
  assumes "generate_random_graph s n dyn ts p False g = Inr (G, out, g')"
  shows "carries {NoWeight} G"
proof (cases dyn)
  case True
  with assms have r: "generate_random_graph s n True ts p False g = Inr (G, out, g')" by simp
  show ?thesis
    by (rule random_dynamic_inv[OF r, where P = "\<lambda>H k. carries {NoWeight} H"])
       (auto intro: unweighted_random_visit)
next
  case False
  with assms have r: "generate_random_graph s n False ts p False g = Inr (G, out, g')" by simp
  have "carries {NoWeight} (fst (G, g'))"
    by (rule random_static_inv[OF r, where P = "\<lambda>a. carries {NoWeight} (fst a)"])
       (auto intro: unweighted_random_pair)
  then show ?thesis by simp
qed

lemma unweighted_homophily_visit:
  assumes "homophily_visit s n groups p_in p_out False i (H, c, k) = Inr (H', c', k')"
    and "carries {WeightNone} H"
  shows "carries {WeightNone} H'"
proof -
  from assms(1) consider (same) "H' = H" | (new) j where "H' = add_edge_weight H i j WeightNone"
    by (auto simp: homophily_visit_def homophily_link_def
        split: prod.splits if_splits sum.splits option.splits)
  then show ?thesis
    using assms(2) by cases (simp_all add: carries_add_edge_weight)
qed

lemma unweighted_homophily_pair:
  assumes "homophily_pair s groups p_in p_out False i j a = Inr b"
    and "carries {WeightNone} (fst a)"
  shows "carries {WeightNone} (fst b)"
  using assms
  by (cases a)
     (auto simp: homophily_pair_def rnd_random_def carries_add_edge_weight
      split: if_splits option.splits)

lemma unweighted_homophily:
  assumes "generate_homophily_graph s n dyn ts hg p_in p_out False g = Inr (G, out, g')"
  shows "carries {WeightNone} G"
proof (cases dyn)
  case True
  with assms have r: "generate_homophily_graph s n True ts hg p_in p_out False g
      = Inr (G, out, g')" by simp
  show ?thesis
    by (rule homophily_dynamic_inv[OF r, where P = "\<lambda>H k. carries {WeightNone} H"])
       (auto intro: unweighted_homophily_visit)
next
  case False
  with assms have r: "generate_homophily_graph s n False ts hg p_in p_out False g
      = Inr (G, out, g')" by simp
  have "carries {WeightNone} (fst (G, g'))"
    by (rule homophily_static_inv[OF r, where P = "\<lambda>a. carries {WeightNone} (fst a)"])
       (auto intro: unweighted_homophily_pair)
  then show ?thesis by simp
qed

lemma unweighted_ba_edge:
  "carries {WeightNone} (fst a) \<Longrightarrow> carries {WeightNone} (fst (ba_edge s False e a))"
  by (cases a; cases e) (auto simp: ba_edge_def carries_add_edge_weight)

lemma unweighted_preferential_static:
  assumes "generate_preferential_attachment_graph s ba n False ts m False g
             = Some (Inr (G, out, g'))"
  shows "carries {WeightNone} G"
proof -
  have "carries {WeightNone} (fst (G, g'))"
    by (rule preferential_static_inv[OF assms, where P = "\<lambda>a. carries {WeightNone} (fst a)"])
       (auto intro: unweighted_ba_edge)
  then show ?thesis by simp
qed

lemma seed_split_iff:
  "seed_split m G \<longleftrightarrow>
     (\<forall>e \<in> set (edges G). snd e = (if fst (fst e) \<le> m then WeightNone else NoWeight))"
  by (simp add: seed_split_def list_all_iff)

lemma seed_split_seed_pair:
  assumes "u \<le> m" and "seed_split m H"
  shows "seed_split m (seed_pair False u v H)"
proof -
  have "set (edges (add_edge_weight H u v WeightNone))
      \<subseteq> insert ((u, v), WeightNone) (set (edges H))"
    by (simp add: add_edge_weight_def Let_def set_update_subset)
  moreover from assms have "\<forall>e \<in> insert ((u, v), WeightNone) (set (edges H)).
      snd e = (if fst (fst e) \<le> m then WeightNone else NoWeight)"
    by (simp add: seed_split_iff)
  ultimately have "\<forall>e \<in> set (edges (add_edge_weight H u v WeightNone)).
      snd e = (if fst (fst e) \<le> m then WeightNone else NoWeight)"
    by blast
  with assms(2) show ?thesis by (simp add: seed_split_iff seed_pair_def)
qed

lemma seed_split_add_edge:
  assumes "m < t" and "seed_split m H"
  shows "seed_split m (add_edge H t v)"
proof -
  have "set (edges (add_edge H t v)) \<subseteq> insert ((t, v), NoWeight) (set (edges H))"
    by (auto simp: add_edge_def Let_def)
  moreover from assms have "\<forall>e \<in> insert ((t, v), NoWeight) (set (edges H)).
      snd e = (if fst (fst e) \<le> m then WeightNone else NoWeight)"
    by (simp add: seed_split_iff)
  ultimately have "\<forall>e \<in> set (edges (add_edge H t v)).
      snd e = (if fst (fst e) \<le> m then WeightNone else NoWeight)"
    by blast
  then show ?thesis by (simp add: seed_split_iff)
qed

lemma seed_split_attach:
  "m < t \<Longrightarrow> seed_split m H \<Longrightarrow> seed_split m (fold (attach False t) targets H)"
  by (induction targets arbitrary: H) (simp_all add: attach_def seed_split_add_edge)

lemma seed_split_arrival:
  assumes "pa_arrival s m False init t (H, o1, k) = Some (H', o2, k')" and "m < t"
    and "seed_split m H"
  shows "seed_split m H'"
proof -
  from assms(1) obtain targets where "H' = fold (attach False t) targets (add_node H t)"
    by (auto simp: pa_arrival_def Let_def split: option.splits)
  moreover from assms(3) have "seed_split m (add_node H t)" by (simp add: seed_split_def)
  ultimately show ?thesis using assms(2) by (simp add: seed_split_attach)
qed

lemma unweighted_preferential_dynamic:
  assumes "generate_preferential_attachment_graph s ba n True ts m False g
             = Some (Inr (G, out, g'))"
  shows "seed_split m G"
proof -
  let ?init = "m + 1"
  let ?G1 = "fold (\<lambda>u. fold (seed_pair False u) (py_range ?init)) (py_range ?init)
               (add_nodes_from empty_graph (py_range ?init))"
  have G1: "seed_split m ?G1"
  proof (rule fold_inv[where P = "seed_split m"])
    show "seed_split m (add_nodes_from empty_graph (py_range ?init))"
      by (simp add: seed_split_def empty_graph_def)
  next
    fix u a assume u: "u \<in> set (py_range ?init)" and a: "seed_split m a"
    from u have "u \<le> m" by (simp add: py_range_def)
    show "seed_split m (fold (seed_pair False u) (py_range ?init) a)"
    proof (rule fold_inv[where P = "seed_split m", OF a])
      fix v H assume "seed_split m H"
      with \<open>u \<le> m\<close> show "seed_split m (seed_pair False u v H)"
        by (rule seed_split_seed_pair)
    qed
  qed
  from assms have r: "for_each_opt (pa_arrival s m False ?init) (py_range2 ?init n)
      (?G1, [], g) = Some (G, out, g')"
    by (simp add: generate_preferential_attachment_graph_def Let_def split: option.splits)
  have "seed_split m (fst (G, out, g'))"
  proof (rule for_each_opt_inv[OF r, where P = "\<lambda>st. seed_split m (fst st)"])
    show "seed_split m (fst (?G1, []::pa_out, g))" using G1 by simp
  next
    fix t and a b :: "graph \<times> pa_out \<times> rng"
    assume t: "t \<in> set (py_range2 ?init n)" and a: "seed_split m (fst a)"
      and b: "pa_arrival s m False ?init t a = Some b"
    from t have "m < t" by (simp add: py_range2_def)
    with seed_split_arrival[of s m ?init t "fst a" "fst (snd a)" "snd (snd a)"
        "fst b" "fst (snd b)" "snd (snd b)"] a b
    show "seed_split m (fst b)" by simp
  qed
  then show ?thesis by simp
qed

subsection \<open>Dynamic mode: an edge is created at 1\<close>

lemma has_edge_incr_weight:
  "incr_weight H i j = Inr H' \<Longrightarrow> has_edge H' u v = has_edge H u v"
  by (simp add: has_edge_keys keys_list_incr_weight)

lemma created_add_edge_weight:
  assumes "\<not> has_edge H u v" and "has_edge (add_edge_weight H i j a) u v"
  shows "map_of (edges (add_edge_weight H i j a)) (u, v) = Some a"
  using assms by (auto simp: has_edge_def map_of_add_edge_weight split: if_splits)

lemma random_visit_creates:
  assumes "random_visit s n p True i (H, c, k) = Inr (H', c', k')"
    and "\<not> has_edge H u v" and "has_edge H' u v"
  shows "map_of (edges H') (u, v) = Some (Weight 1)"
proof -
  from assms(1) consider
      (same) "H' = H"
    | (incr) j where "incr_weight H i j = Inr H'"
    | (new) j where "H' = add_edge_weight H i j (Weight 1)"
    by (auto simp: random_visit_def split: prod.splits if_splits sum.splits)
  then show ?thesis
  proof cases
    case same
    with assms(2,3) show ?thesis by simp
  next
    case incr
    from has_edge_incr_weight[OF incr] assms(2,3) show ?thesis by simp
  next
    case new
    with assms(2,3) show ?thesis by (simp add: created_add_edge_weight)
  qed
qed

lemma homophily_visit_creates:
  assumes "homophily_visit s n groups p_in p_out True i (H, c, k) = Inr (H', c', k')"
    and "\<not> has_edge H u v" and "has_edge H' u v"
  shows "map_of (edges H') (u, v) = Some (Weight 1)"
proof -
  from assms(1) consider
      (same) "H' = H"
    | (incr) j where "incr_weight H i j = Inr H'"
    | (new) j where "H' = add_edge_weight H i j (Weight 1)"
    by (auto simp: homophily_visit_def homophily_link_def
        split: prod.splits if_splits sum.splits option.splits)
  then show ?thesis
  proof cases
    case same
    with assms(2,3) show ?thesis by simp
  next
    case incr
    from has_edge_incr_weight[OF incr] assms(2,3) show ?thesis by simp
  next
    case new
    with assms(2,3) show ?thesis by (simp add: created_add_edge_weight)
  qed
qed

lemma one_seed_pair: "carries {Weight 1} H \<Longrightarrow> carries {Weight 1} (seed_pair True u v H)"
  by (simp add: seed_pair_def carries_add_edge_weight)

lemma one_attach:
  "carries {Weight 1} H \<Longrightarrow> carries {Weight 1} (fold (attach True t) targets H)"
  by (induction targets arbitrary: H) (simp_all add: attach_def carries_add_edge_weight)

lemma one_arrival:
  assumes "pa_arrival s m True init t (H, o1, k) = Some (H', o2, k')" and "carries {Weight 1} H"
  shows "carries {Weight 1} H'"
proof -
  from assms(1) obtain targets where "H' = fold (attach True t) targets (add_node H t)"
    by (auto simp: pa_arrival_def Let_def split: option.splits)
  with assms(2) show ?thesis by (simp add: one_attach)
qed

lemma weighted_preferential_dynamic:
  assumes "generate_preferential_attachment_graph s ba n True ts m True g
             = Some (Inr (G, out, g'))"
  shows "carries {Weight 1} G"
  by (rule preferential_dynamic_inv[OF assms, where P = "carries {Weight 1}"])
     (auto intro: one_seed_pair one_arrival)

subsection \<open>Static mode: the weight is one draw of the run\<close>

lemma drawn_step:
  assumes "drawn s g (H, k)" and "k \<le> k'"
  shows "drawn s g (H, k')"
proof -
  from assms(2) have "Weight ` s ` {g..<k} \<subseteq> Weight ` s ` {g..<k'}" by auto
  with assms show ?thesis by (auto simp: drawn_def intro: carries_mono)
qed

lemma drawn_add:
  assumes "drawn s g (H, k)" and "k \<le> d" and "d < k'"
  shows "drawn s g (add_edge_weight H u v (Weight (s d)), k')"
proof -
  from assms have "drawn s g (H, k')" using drawn_step[of s g H k k'] by simp
  moreover from assms have "Weight (s d) \<in> Weight ` s ` {g..<k'}" by (auto simp: drawn_def)
  ultimately show ?thesis by (simp add: drawn_def carries_add_edge_weight)
qed

lemma drawn_cases:
  assumes "drawn s g (H, k)"
    and "b = (H, k) \<or> b = (H, Suc k)
      \<or> b = (add_edge_weight H i j (Weight (s (Suc k))), Suc (Suc k))"
  shows "drawn s g b"
proof -
  from assms(1) have 1: "drawn s g (H, Suc k)"
    using drawn_step[of s g H k "Suc k"] by simp
  from assms(1) have 2: "drawn s g (add_edge_weight H i j (Weight (s (Suc k))), Suc (Suc k))"
    using drawn_add[of s g H k "Suc k" "Suc (Suc k)" i j] by simp
  from assms(2) show ?thesis
  proof (elim disjE)
    assume "b = (H, k)"
    with assms(1) show ?thesis by simp
  next
    assume "b = (H, Suc k)"
    with 1 show ?thesis by simp
  next
    assume "b = (add_edge_weight H i j (Weight (s (Suc k))), Suc (Suc k))"
    with 2 show ?thesis by simp
  qed
qed

lemma drawn_random_pair:
  assumes "drawn s g a"
  shows "drawn s g (random_pair s p True i j a)"
proof -
  obtain H k where a: "a = (H, k)" by (cases a)
  have "random_pair s p True i j (H, k) = (H, k) \<or> random_pair s p True i j (H, k) = (H, Suc k)
      \<or> random_pair s p True i j (H, k)
          = (add_edge_weight H i j (Weight (s (Suc k))), Suc (Suc k))"
    by (simp add: random_pair_def rnd_random_def)
  with assms show ?thesis unfolding a by (rule drawn_cases)
qed

lemma drawn_homophily_pair:
  assumes "homophily_pair s groups p_in p_out True i j a = Inr b" and "drawn s g a"
  shows "drawn s g b"
proof -
  obtain H k where a: "a = (H, k)" by (cases a)
  from assms(1) have "b = (H, k) \<or> b = (H, Suc k)
      \<or> b = (add_edge_weight H i j (Weight (s (Suc k))), Suc (Suc k))"
    by (auto simp: a homophily_pair_def rnd_random_def split: if_splits option.splits)
  with assms(2) show ?thesis unfolding a by (rule drawn_cases)
qed

lemma drawn_ba_edge:
  assumes "drawn s g a"
  shows "drawn s g (ba_edge s True e a)"
proof -
  obtain H k where a: "a = (H, k)" by (cases a)
  obtain u v where e: "e = (u, v)" by (cases e)
  have b: "ba_edge s True e a
      = (add_edge_weight (add_edge_weight H u v (Weight (s k))) v u (Weight (s (Suc k))),
         Suc (Suc k))"
    by (simp add: a e ba_edge_def rnd_random_def)
  from assms a have "drawn s g (add_edge_weight H u v (Weight (s k)), Suc k)"
    using drawn_add[of s g H k k "Suc k" u v] by simp
  then show ?thesis unfolding b
    using drawn_add[of s g "add_edge_weight H u v (Weight (s k))" "Suc k" "Suc k"
        "Suc (Suc k)" v u] by simp
qed

lemma drawn_start [simp]:
  "drawn s g (add_nodes_from empty_graph vs, g)"
  "drawn s g ((add_nodes_from empty_graph vs)\<lparr>node_group := x\<rparr>, g)"
  by (simp_all add: drawn_def)

lemma drawn_random:
  assumes "generate_random_graph s n False ts p True g = Inr (G, out, g')"
  shows "carries (Weight ` s ` {g..<g'}) G"
proof -
  have "drawn s g (G, g')"
  proof (rule random_static_inv[OF assms, where P = "drawn s g"])
    show "drawn s g (add_nodes_from empty_graph (py_range n), g)" by (rule drawn_start)
  qed (rule drawn_random_pair)
  then show ?thesis by (simp add: drawn_def)
qed

lemma drawn_homophily:
  assumes "generate_homophily_graph s n False ts hg p_in p_out True g = Inr (G, out, g')"
  shows "carries (Weight ` s ` {g..<g'}) G"
proof -
  have "drawn s g (G, g')"
  proof (rule homophily_static_inv[OF assms, where P = "drawn s g"])
    show "drawn s g ((add_nodes_from empty_graph (py_range n))
        \<lparr>node_group := map (\<lambda>i. (i, i mod hg)) (py_range n)\<rparr>, g)" by (rule drawn_start)
  next
    fix i j and a b :: "graph \<times> rng"
    assume "drawn s g a"
      "homophily_pair s (map (\<lambda>i. (i, i mod hg)) (py_range n)) p_in p_out True i j a = Inr b"
    then show "drawn s g b" by (rule drawn_homophily_pair[rotated])
  qed
  then show ?thesis by (simp add: drawn_def)
qed

lemma drawn_preferential:
  assumes "generate_preferential_attachment_graph s ba n False ts m True g
             = Some (Inr (G, out, g'))"
  shows "carries (Weight ` s ` {g..<g'}) G"
proof -
  have "drawn s g (G, g')"
  proof (rule preferential_static_inv[OF assms, where P = "drawn s g"])
    fix ns es assume "ba n m = Inr (ns, es)"
    show "drawn s g (add_nodes_from empty_graph ns, g)" by (rule drawn_start)
  next
    fix ns es e and a :: "graph \<times> rng"
    assume "drawn s g a"
    then show "drawn s g (ba_edge s True e a)" by (rule drawn_ba_edge)
  qed
  then show ?thesis by (simp add: drawn_def)
qed

text \<open>
  C2, as amended. For the three generators, with draws in \<open>[0, 1)\<close>. In a weighted
  configuration every edge of the returned graph carries a number: at least 1 in dynamic
  mode, in \<open>[0, 1)\<close> in static mode. In dynamic mode an edge is created at weight 1: a
  visit of the random or of the homophily generator leaves 1 on every edge that it
  creates, and every edge of a dynamic preferential run carries exactly 1. In static mode
  the weight of an edge is one of the draws of \<^verbatim>\<open>random.random()\<close> made during the
  run, which can be 0. In an unweighted configuration no edge carries a number: the random
  generator sets no attribute; the homophily generator and static preferential attachment
  store \<^verbatim>\<open>None\<close>; dynamic preferential attachment stores \<^verbatim>\<open>None\<close> on the edges of
  the seed clique and no attribute on the edges of the arrivals.
\<close>

theorem edge_weight_bounds:
  "(unit_stream s \<longrightarrow> generate_random_graph s n dyn ts p ew g = Inr (GA, outA, gA)
      \<longrightarrow> weights_ok dyn ew GA) \<and>
   (unit_stream s \<longrightarrow> generate_homophily_graph s n dyn ts hg p_in p_out ew g = Inr (GB, outB, gB)
      \<longrightarrow> weights_ok dyn ew GB) \<and>
   (unit_stream s \<longrightarrow>
      generate_preferential_attachment_graph s ba n dyn ts m ew g = Some (Inr (GC, outC, gC))
      \<longrightarrow> weights_ok dyn ew GC) \<and>
   (random_visit s n p True i (H, c, k) = Inr (HA, cA, kA) \<longrightarrow>
      \<not> has_edge H u v \<longrightarrow> has_edge HA u v \<longrightarrow>
      map_of (edges HA) (u, v) = Some (Weight 1)) \<and>
   (homophily_visit s n groups p_in p_out True i (H, c, k) = Inr (HB, cB, kB) \<longrightarrow>
      \<not> has_edge H u v \<longrightarrow> has_edge HB u v \<longrightarrow>
      map_of (edges HB) (u, v) = Some (Weight 1)) \<and>
   (generate_preferential_attachment_graph s ba n True ts m True g = Some (Inr (GD, outD, gD))
      \<longrightarrow> carries {Weight 1} GD) \<and>
   (generate_random_graph s n False ts p True g = Inr (GE, outE, gE)
      \<longrightarrow> carries (Weight ` s ` {g..<gE}) GE) \<and>
   (generate_homophily_graph s n False ts hg p_in p_out True g = Inr (GF, outF, gF)
      \<longrightarrow> carries (Weight ` s ` {g..<gF}) GF) \<and>
   (generate_preferential_attachment_graph s ba n False ts m True g = Some (Inr (GG, outG, gG))
      \<longrightarrow> carries (Weight ` s ` {g..<gG}) GG) \<and>
   (generate_random_graph s n dyn ts p False g = Inr (GH, outH, gH)
      \<longrightarrow> carries {NoWeight} GH) \<and>
   (generate_homophily_graph s n dyn ts hg p_in p_out False g = Inr (GI, outI, gI)
      \<longrightarrow> carries {WeightNone} GI) \<and>
   (generate_preferential_attachment_graph s ba n False ts m False g
        = Some (Inr (GJ, outJ, gJ))
      \<longrightarrow> carries {WeightNone} GJ) \<and>
   (generate_preferential_attachment_graph s ba n True ts m False g
        = Some (Inr (GK, outK, gK))
      \<longrightarrow> seed_split m GK)"
proof (intro conjI impI)
  assume "unit_stream s" "generate_random_graph s n dyn ts p ew g = Inr (GA, outA, gA)"
  then show "weights_ok dyn ew GA" by (rule wok_random[rotated])
next
  assume "unit_stream s"
    "generate_homophily_graph s n dyn ts hg p_in p_out ew g = Inr (GB, outB, gB)"
  then show "weights_ok dyn ew GB" by (rule wok_homophily[rotated])
next
  assume "unit_stream s"
    "generate_preferential_attachment_graph s ba n dyn ts m ew g = Some (Inr (GC, outC, gC))"
  then show "weights_ok dyn ew GC" by (rule wok_preferential[rotated])
next
  assume "random_visit s n p True i (H, c, k) = Inr (HA, cA, kA)"
    "\<not> has_edge H u v" "has_edge HA u v"
  then show "map_of (edges HA) (u, v) = Some (Weight 1)" by (rule random_visit_creates)
next
  assume "homophily_visit s n groups p_in p_out True i (H, c, k) = Inr (HB, cB, kB)"
    "\<not> has_edge H u v" "has_edge HB u v"
  then show "map_of (edges HB) (u, v) = Some (Weight 1)" by (rule homophily_visit_creates)
next
  assume "generate_preferential_attachment_graph s ba n True ts m True g
    = Some (Inr (GD, outD, gD))"
  then show "carries {Weight 1} GD" by (rule weighted_preferential_dynamic)
next
  assume "generate_random_graph s n False ts p True g = Inr (GE, outE, gE)"
  then show "carries (Weight ` s ` {g..<gE}) GE" by (rule drawn_random)
next
  assume "generate_homophily_graph s n False ts hg p_in p_out True g = Inr (GF, outF, gF)"
  then show "carries (Weight ` s ` {g..<gF}) GF" by (rule drawn_homophily)
next
  assume "generate_preferential_attachment_graph s ba n False ts m True g
    = Some (Inr (GG, outG, gG))"
  then show "carries (Weight ` s ` {g..<gG}) GG" by (rule drawn_preferential)
next
  assume "generate_random_graph s n dyn ts p False g = Inr (GH, outH, gH)"
  then show "carries {NoWeight} GH" by (rule unweighted_random)
next
  assume "generate_homophily_graph s n dyn ts hg p_in p_out False g = Inr (GI, outI, gI)"
  then show "carries {WeightNone} GI" by (rule unweighted_homophily)
next
  assume "generate_preferential_attachment_graph s ba n False ts m False g
    = Some (Inr (GJ, outJ, gJ))"
  then show "carries {WeightNone} GJ" by (rule unweighted_preferential_static)
next
  assume "generate_preferential_attachment_graph s ba n True ts m False g
    = Some (Inr (GK, outK, gK))"
  then show "seed_split m GK" by (rule unweighted_preferential_dynamic)
qed

theorem edge_weight_bounds_witness:
  "unit_stream (\<lambda>k. 1/3) \<and>
   generate_random_graph (\<lambda>k. 1/3) 4 True 2 (1/2) True 0 =
       Inr (\<lparr>nodes = [0, 1, 2, 3],
         edges = [((0, 1), Weight 2), ((2, 1), Weight 2), ((3, 1), Weight 2)],
         node_group = []\<rparr>, [3, 0], 16) \<and>
   generate_homophily_graph (\<lambda>k. 1/3) 4 True 2 2 1 1 True 0 =
       Inr (\<lparr>nodes = [0, 1, 2, 3],
         edges = [((0, 1), Weight 2), ((2, 1), Weight 2), ((3, 1), Weight 2)],
         node_group = [(0, 0), (1, 1), (2, 0), (3, 1)]\<rparr>, [3, 0], 14) \<and>
   generate_preferential_attachment_graph (\<lambda>k. 1/3) star_base 4 True 2 1 True 0 =
       Some (Inr (\<lparr>nodes = [0, 1, 2, 3],
         edges = [((0, 1), Weight 1), ((1, 0), Weight 1), ((2, 0), Weight 1), ((3, 0), Weight 1)],
         node_group = []\<rparr>, [(1, 2, 1), (2, 3, 1)], 2)) \<and>
   random_visit (\<lambda>k. 1/3) 3 (1/2) True 2 (\<lparr>nodes = [0, 1, 2],
         edges = [((0, 1), Weight 1)],
         node_group = []\<rparr>, 0, 0) =
       Inr (\<lparr>nodes = [0, 1, 2],
         edges = [((0, 1), Weight 1), ((2, 1), Weight 1)],
         node_group = []\<rparr>, 1, 2) \<and>
   homophily_visit (\<lambda>k. 1/3) 3 [(0, 0), (1, 1), (2, 0)] (1/2) (1/2) True 2 (\<lparr>nodes = [0, 1, 2],
         edges = [((0, 1), Weight 1)],
         node_group = []\<rparr>, 0, 0) =
       Inr (\<lparr>nodes = [0, 1, 2],
         edges = [((0, 1), Weight 1), ((2, 1), Weight 1)],
         node_group = []\<rparr>, 1, 2) \<and>
   \<not> has_edge \<lparr>nodes = [0, 1, 2],
         edges = [((0, 1), Weight 1)],
         node_group = []\<rparr> 2 1 \<and>
   has_edge \<lparr>nodes = [0, 1, 2],
         edges = [((0, 1), Weight 1), ((2, 1), Weight 1)],
         node_group = []\<rparr> 2 1 \<and>
   generate_random_graph (\<lambda>k. 1/3) 3 False 1 (1/2) True 0 =
       Inr (\<lparr>nodes = [0, 1, 2],
         edges = [((0, 1), Weight (1/3)), ((0, 2), Weight (1/3)), ((1, 0), Weight (1/3)),
           ((1, 2), Weight (1/3)), ((2, 0), Weight (1/3)), ((2, 1), Weight (1/3))],
         node_group = []\<rparr>, [], 12) \<and>
   generate_homophily_graph (\<lambda>k. 1/3) 3 False 1 2 (1/2) (1/4) True 0 =
       Inr (\<lparr>nodes = [0, 1, 2],
         edges = [((0, 2), Weight (1/3)), ((2, 0), Weight (1/3))],
         node_group = [(0, 0), (1, 1), (2, 0)]\<rparr>, [], 8) \<and>
   generate_preferential_attachment_graph (\<lambda>k. 1/3) star_base 3 False 1 1 True 0 =
       Some (Inr (\<lparr>nodes = [0, 1, 2],
         edges = [((0, 1), Weight (1/3)), ((1, 0), Weight (1/3)), ((0, 2), Weight (1/3)),
           ((2, 0), Weight (1/3))],
         node_group = []\<rparr>, [], 4)) \<and>
   generate_random_graph (\<lambda>k. 1/3) 3 False 2 (1/2) False 0 =
       Inr (\<lparr>nodes = [0, 1, 2],
         edges = [((0, 1), NoWeight), ((0, 2), NoWeight), ((1, 0), NoWeight), ((1, 2), NoWeight),
           ((2, 0), NoWeight), ((2, 1), NoWeight)],
         node_group = []\<rparr>, [], 6) \<and>
   generate_homophily_graph (\<lambda>k. 1/3) 3 False 2 2 (1/2) (1/2) False 0 =
       Inr (\<lparr>nodes = [0, 1, 2],
         edges = [((0, 1), WeightNone), ((0, 2), WeightNone), ((1, 0), WeightNone),
           ((1, 2), WeightNone), ((2, 0), WeightNone), ((2, 1), WeightNone)],
         node_group = [(0, 0), (1, 1), (2, 0)]\<rparr>, [], 6) \<and>
   generate_preferential_attachment_graph (\<lambda>k. 1/3) star_base 3 False 2 1 False 0 =
       Some (Inr (\<lparr>nodes = [0, 1, 2],
         edges = [((0, 1), WeightNone), ((1, 0), WeightNone), ((0, 2), WeightNone),
           ((2, 0), WeightNone)],
         node_group = []\<rparr>, [], 0)) \<and>
   generate_preferential_attachment_graph (\<lambda>k. 1/3) star_base 4 True 2 1 False 0 =
       Some (Inr (\<lparr>nodes = [0, 1, 2, 3],
         edges = [((0, 1), WeightNone), ((1, 0), WeightNone), ((2, 0), NoWeight),
           ((3, 0), NoWeight)],
         node_group = []\<rparr>, [(1, 2, 1), (2, 3, 1)], 2)) \<and>
   weights_ok True True \<lparr>nodes = [0, 1, 2, 3],
         edges = [((0, 1), Weight 2), ((2, 1), Weight 2), ((3, 1), Weight 2)],
         node_group = []\<rparr> \<and>
   weights_ok True True \<lparr>nodes = [0, 1, 2, 3],
         edges = [((0, 1), Weight 2), ((2, 1), Weight 2), ((3, 1), Weight 2)],
         node_group = [(0, 0), (1, 1), (2, 0), (3, 1)]\<rparr> \<and>
   weights_ok True True \<lparr>nodes = [0, 1, 2, 3],
         edges = [((0, 1), Weight 1), ((1, 0), Weight 1), ((2, 0), Weight 1), ((3, 0), Weight 1)],
         node_group = []\<rparr> \<and>
   map_of (edges \<lparr>nodes = [0, 1, 2],
         edges = [((0, 1), Weight 1), ((2, 1), Weight 1)],
         node_group = []\<rparr>) (2, 1) = Some (Weight 1) \<and>
   carries {Weight 1} \<lparr>nodes = [0, 1, 2, 3],
         edges = [((0, 1), Weight 1), ((1, 0), Weight 1), ((2, 0), Weight 1), ((3, 0), Weight 1)],
         node_group = []\<rparr> \<and>
   carries (Weight ` (\<lambda>k. 1/3) ` {0..<(12::nat)}) \<lparr>nodes = [0, 1, 2],
         edges = [((0, 1), Weight (1/3)), ((0, 2), Weight (1/3)), ((1, 0), Weight (1/3)),
           ((1, 2), Weight (1/3)), ((2, 0), Weight (1/3)), ((2, 1), Weight (1/3))],
         node_group = []\<rparr> \<and>
   carries (Weight ` (\<lambda>k. 1/3) ` {0..<(8::nat)}) \<lparr>nodes = [0, 1, 2],
         edges = [((0, 2), Weight (1/3)), ((2, 0), Weight (1/3))],
         node_group = [(0, 0), (1, 1), (2, 0)]\<rparr> \<and>
   carries (Weight ` (\<lambda>k. 1/3) ` {0..<(4::nat)}) \<lparr>nodes = [0, 1, 2],
         edges = [((0, 1), Weight (1/3)), ((1, 0), Weight (1/3)), ((0, 2), Weight (1/3)),
           ((2, 0), Weight (1/3))],
         node_group = []\<rparr> \<and>
   carries {NoWeight} \<lparr>nodes = [0, 1, 2],
         edges = [((0, 1), NoWeight), ((0, 2), NoWeight), ((1, 0), NoWeight), ((1, 2), NoWeight),
           ((2, 0), NoWeight), ((2, 1), NoWeight)],
         node_group = []\<rparr> \<and>
   carries {WeightNone} \<lparr>nodes = [0, 1, 2],
         edges = [((0, 1), WeightNone), ((0, 2), WeightNone), ((1, 0), WeightNone),
           ((1, 2), WeightNone), ((2, 0), WeightNone), ((2, 1), WeightNone)],
         node_group = [(0, 0), (1, 1), (2, 0)]\<rparr> \<and>
   carries {WeightNone} \<lparr>nodes = [0, 1, 2],
         edges = [((0, 1), WeightNone), ((1, 0), WeightNone), ((0, 2), WeightNone),
           ((2, 0), WeightNone)],
         node_group = []\<rparr> \<and>
   seed_split 1 \<lparr>nodes = [0, 1, 2, 3],
         edges = [((0, 1), WeightNone), ((1, 0), WeightNone), ((2, 0), NoWeight),
           ((3, 0), NoWeight)],
         node_group = []\<rparr>"
proof -
  have u: "unit_stream (\<lambda>k. 1/3)"
    by (simp add: unit_stream_def)
  have h1: "generate_random_graph (\<lambda>k. 1/3) 4 True 2 (1/2) True 0 =
      Inr (\<lparr>nodes = [0, 1, 2, 3],
        edges = [((0, 1), Weight 2), ((2, 1), Weight 2), ((3, 1), Weight 2)],
        node_group = []\<rparr>, [3, 0], 16)"
    by code_simp
  have h2: "generate_homophily_graph (\<lambda>k. 1/3) 4 True 2 2 1 1 True 0 =
      Inr (\<lparr>nodes = [0, 1, 2, 3],
        edges = [((0, 1), Weight 2), ((2, 1), Weight 2), ((3, 1), Weight 2)],
        node_group = [(0, 0), (1, 1), (2, 0), (3, 1)]\<rparr>, [3, 0], 14)"
    by code_simp
  have h3: "generate_preferential_attachment_graph (\<lambda>k. 1/3) star_base 4 True 2 1 True 0 =
      Some (Inr (\<lparr>nodes = [0, 1, 2, 3],
        edges = [((0, 1), Weight 1), ((1, 0), Weight 1), ((2, 0), Weight 1), ((3, 0), Weight 1)],
        node_group = []\<rparr>, [(1, 2, 1), (2, 3, 1)], 2))"
    by code_simp
  have v1: "random_visit (\<lambda>k. 1/3) 3 (1/2) True 2 (\<lparr>nodes = [0, 1, 2],
        edges = [((0, 1), Weight 1)],
        node_group = []\<rparr>, 0, 0) =
      Inr (\<lparr>nodes = [0, 1, 2],
        edges = [((0, 1), Weight 1), ((2, 1), Weight 1)],
        node_group = []\<rparr>, 1, 2)"
    by code_simp
  have v2: "homophily_visit (\<lambda>k. 1/3) 3 [(0, 0), (1, 1), (2, 0)] (1/2) (1/2) True 2 (\<lparr>nodes = [0, 1, 2],
        edges = [((0, 1), Weight 1)],
        node_group = []\<rparr>, 0, 0) =
      Inr (\<lparr>nodes = [0, 1, 2],
        edges = [((0, 1), Weight 1), ((2, 1), Weight 1)],
        node_group = []\<rparr>, 1, 2)"
    by code_simp
  have nh: "\<not> has_edge \<lparr>nodes = [0, 1, 2],
        edges = [((0, 1), Weight 1)],
        node_group = []\<rparr> 2 1"
    by code_simp
  have hh: "has_edge \<lparr>nodes = [0, 1, 2],
        edges = [((0, 1), Weight 1), ((2, 1), Weight 1)],
        node_group = []\<rparr> 2 1"
    by code_simp
  have s1: "generate_random_graph (\<lambda>k. 1/3) 3 False 1 (1/2) True 0 =
      Inr (\<lparr>nodes = [0, 1, 2],
        edges = [((0, 1), Weight (1/3)), ((0, 2), Weight (1/3)), ((1, 0), Weight (1/3)),
          ((1, 2), Weight (1/3)), ((2, 0), Weight (1/3)), ((2, 1), Weight (1/3))],
        node_group = []\<rparr>, [], 12)"
    by code_simp
  have s2: "generate_homophily_graph (\<lambda>k. 1/3) 3 False 1 2 (1/2) (1/4) True 0 =
      Inr (\<lparr>nodes = [0, 1, 2],
        edges = [((0, 2), Weight (1/3)), ((2, 0), Weight (1/3))],
        node_group = [(0, 0), (1, 1), (2, 0)]\<rparr>, [], 8)"
    by code_simp
  have s3: "generate_preferential_attachment_graph (\<lambda>k. 1/3) star_base 3 False 1 1 True 0 =
      Some (Inr (\<lparr>nodes = [0, 1, 2],
        edges = [((0, 1), Weight (1/3)), ((1, 0), Weight (1/3)), ((0, 2), Weight (1/3)),
          ((2, 0), Weight (1/3))],
        node_group = []\<rparr>, [], 4))"
    by code_simp
  have n1: "generate_random_graph (\<lambda>k. 1/3) 3 False 2 (1/2) False 0 =
      Inr (\<lparr>nodes = [0, 1, 2],
        edges = [((0, 1), NoWeight), ((0, 2), NoWeight), ((1, 0), NoWeight), ((1, 2), NoWeight),
          ((2, 0), NoWeight), ((2, 1), NoWeight)],
        node_group = []\<rparr>, [], 6)"
    by code_simp
  have n2: "generate_homophily_graph (\<lambda>k. 1/3) 3 False 2 2 (1/2) (1/2) False 0 =
      Inr (\<lparr>nodes = [0, 1, 2],
        edges = [((0, 1), WeightNone), ((0, 2), WeightNone), ((1, 0), WeightNone),
          ((1, 2), WeightNone), ((2, 0), WeightNone), ((2, 1), WeightNone)],
        node_group = [(0, 0), (1, 1), (2, 0)]\<rparr>, [], 6)"
    by code_simp
  have n3: "generate_preferential_attachment_graph (\<lambda>k. 1/3) star_base 3 False 2 1 False 0 =
      Some (Inr (\<lparr>nodes = [0, 1, 2],
        edges = [((0, 1), WeightNone), ((1, 0), WeightNone), ((0, 2), WeightNone),
          ((2, 0), WeightNone)],
        node_group = []\<rparr>, [], 0))"
    by code_simp
  have n4: "generate_preferential_attachment_graph (\<lambda>k. 1/3) star_base 4 True 2 1 False 0 =
      Some (Inr (\<lparr>nodes = [0, 1, 2, 3],
        edges = [((0, 1), WeightNone), ((1, 0), WeightNone), ((2, 0), NoWeight),
          ((3, 0), NoWeight)],
        node_group = []\<rparr>, [(1, 2, 1), (2, 3, 1)], 2))"
    by code_simp
  have c1: "weights_ok True True \<lparr>nodes = [0, 1, 2, 3],
        edges = [((0, 1), Weight 2), ((2, 1), Weight 2), ((3, 1), Weight 2)],
        node_group = []\<rparr>"
    using edge_weight_bounds[where s = "\<lambda>k. 1/3" and n = 4 and dyn = True and ts = 2
        and p = "1/2" and ew = True and g = 0 and hg = 2 and p_in = 1 and p_out = 1
        and ba = star_base and m = 1]
      u h1
    by (simp only: simp_thms)
  have c2: "weights_ok True True \<lparr>nodes = [0, 1, 2, 3],
        edges = [((0, 1), Weight 2), ((2, 1), Weight 2), ((3, 1), Weight 2)],
        node_group = [(0, 0), (1, 1), (2, 0), (3, 1)]\<rparr>"
    using edge_weight_bounds[where s = "\<lambda>k. 1/3" and n = 4 and dyn = True and ts = 2
        and p = "1/2" and ew = True and g = 0 and hg = 2 and p_in = 1 and p_out = 1
        and ba = star_base and m = 1]
      u h2
    by (simp only: simp_thms)
  have c3: "weights_ok True True \<lparr>nodes = [0, 1, 2, 3],
        edges = [((0, 1), Weight 1), ((1, 0), Weight 1), ((2, 0), Weight 1), ((3, 0), Weight 1)],
        node_group = []\<rparr>"
    using edge_weight_bounds[where s = "\<lambda>k. 1/3" and n = 4 and dyn = True and ts = 2
        and p = "1/2" and ew = True and g = 0 and hg = 2 and p_in = 1 and p_out = 1
        and ba = star_base and m = 1]
      u h3
    by (simp only: simp_thms)
  have c4: "map_of (edges \<lparr>nodes = [0, 1, 2],
        edges = [((0, 1), Weight 1), ((2, 1), Weight 1)],
        node_group = []\<rparr>) (2, 1) = Some (Weight 1)"
    using edge_weight_bounds[where s = "\<lambda>k. 1/3" and n = 3 and p = "1/2" and p_in = "1/2"
        and p_out = "1/2" and i = 2 and c = 0 and k = 0 and u = 2 and v = 1
        and groups = "[(0, 0), (1, 1), (2, 0)]"]
      v1 nh hh
    by (simp only: simp_thms)
  have c5: "map_of (edges \<lparr>nodes = [0, 1, 2],
        edges = [((0, 1), Weight 1), ((2, 1), Weight 1)],
        node_group = []\<rparr>) (2, 1) = Some (Weight 1)"
    using edge_weight_bounds[where s = "\<lambda>k. 1/3" and n = 3 and p = "1/2" and p_in = "1/2"
        and p_out = "1/2" and i = 2 and c = 0 and k = 0 and u = 2 and v = 1
        and groups = "[(0, 0), (1, 1), (2, 0)]"]
      v2 nh hh
    by (simp only: simp_thms)
  have c6: "carries {Weight 1} \<lparr>nodes = [0, 1, 2, 3],
        edges = [((0, 1), Weight 1), ((1, 0), Weight 1), ((2, 0), Weight 1), ((3, 0), Weight 1)],
        node_group = []\<rparr>"
    using edge_weight_bounds[where s = "\<lambda>k. 1/3" and n = 4 and dyn = True and ts = 2
        and p = "1/2" and ew = True and g = 0 and hg = 2 and p_in = 1 and p_out = 1
        and ba = star_base and m = 1]
      h3
    by (simp only: simp_thms)
  have c7: "carries (Weight ` (\<lambda>k. 1/3) ` {0..<(12::nat)}) \<lparr>nodes = [0, 1, 2],
        edges = [((0, 1), Weight (1/3)), ((0, 2), Weight (1/3)), ((1, 0), Weight (1/3)),
          ((1, 2), Weight (1/3)), ((2, 0), Weight (1/3)), ((2, 1), Weight (1/3))],
        node_group = []\<rparr>"
    by (rule edge_weight_bounds[where s = "\<lambda>k. 1/3" and n = 3 and ts = 1 and p = "1/2"
        and g = 0 and hg = 2 and p_in = "1/2" and p_out = "1/4" and ba = star_base and m = 1
        and GE = "\<lparr>nodes = [0, 1, 2],
          edges = [((0, 1), Weight (1/3)), ((0, 2), Weight (1/3)), ((1, 0), Weight (1/3)),
            ((1, 2), Weight (1/3)), ((2, 0), Weight (1/3)), ((2, 1), Weight (1/3))],
          node_group = []\<rparr>"
        and outE = "[]"
        and gE = 12, THEN conjunct2, THEN conjunct2, THEN conjunct2, THEN conjunct2, 
        THEN conjunct2, THEN conjunct2,
        THEN conjunct1, THEN mp, OF s1])
  have c8: "carries (Weight ` (\<lambda>k. 1/3) ` {0..<(8::nat)}) \<lparr>nodes = [0, 1, 2],
        edges = [((0, 2), Weight (1/3)), ((2, 0), Weight (1/3))],
        node_group = [(0, 0), (1, 1), (2, 0)]\<rparr>"
    by (rule edge_weight_bounds[where s = "\<lambda>k. 1/3" and n = 3 and ts = 1 and p = "1/2"
        and g = 0 and hg = 2 and p_in = "1/2" and p_out = "1/4" and ba = star_base and m = 1
        and GF = "\<lparr>nodes = [0, 1, 2],
          edges = [((0, 2), Weight (1/3)), ((2, 0), Weight (1/3))],
          node_group = [(0, 0), (1, 1), (2, 0)]\<rparr>"
        and outF = "[]"
        and gF = 8, THEN conjunct2, THEN conjunct2, THEN conjunct2, THEN conjunct2, 
        THEN conjunct2, THEN conjunct2, THEN conjunct2,
        THEN conjunct1, THEN mp, OF s2])
  have c9: "carries (Weight ` (\<lambda>k. 1/3) ` {0..<(4::nat)}) \<lparr>nodes = [0, 1, 2],
        edges = [((0, 1), Weight (1/3)), ((1, 0), Weight (1/3)), ((0, 2), Weight (1/3)),
          ((2, 0), Weight (1/3))],
        node_group = []\<rparr>"
    by (rule edge_weight_bounds[where s = "\<lambda>k. 1/3" and n = 3 and ts = 1 and p = "1/2"
        and g = 0 and hg = 2 and p_in = "1/2" and p_out = "1/4" and ba = star_base and m = 1
        and GG = "\<lparr>nodes = [0, 1, 2],
          edges = [((0, 1), Weight (1/3)), ((1, 0), Weight (1/3)), ((0, 2), Weight (1/3)),
            ((2, 0), Weight (1/3))],
          node_group = []\<rparr>"
        and outG = "[]"
        and gG = 4, THEN conjunct2, THEN conjunct2, THEN conjunct2, THEN conjunct2, 
        THEN conjunct2, THEN conjunct2, THEN conjunct2, THEN conjunct2,
        THEN conjunct1, THEN mp, OF s3])
  have c10: "carries {NoWeight} \<lparr>nodes = [0, 1, 2],
        edges = [((0, 1), NoWeight), ((0, 2), NoWeight), ((1, 0), NoWeight), ((1, 2), NoWeight),
          ((2, 0), NoWeight), ((2, 1), NoWeight)],
        node_group = []\<rparr>"
    by (rule edge_weight_bounds[where s = "\<lambda>k. 1/3" and n = 3 and dyn = False and ts = 2
        and p = "1/2" and g = 0 and hg = 2 and p_in = "1/2" and p_out = "1/2" and ba = star_base
        and m = 1
        and GH = "\<lparr>nodes = [0, 1, 2],
          edges = [((0, 1), NoWeight), ((0, 2), NoWeight), ((1, 0), NoWeight),
            ((1, 2), NoWeight), ((2, 0), NoWeight), ((2, 1), NoWeight)],
          node_group = []\<rparr>"
        and outH = "[]"
        and gH = 6, THEN conjunct2, THEN conjunct2, THEN conjunct2, THEN conjunct2, 
        THEN conjunct2, THEN conjunct2, THEN conjunct2, THEN conjunct2, 
        THEN conjunct2,
        THEN conjunct1, THEN mp, OF n1])
  have c11: "carries {WeightNone} \<lparr>nodes = [0, 1, 2],
        edges = [((0, 1), WeightNone), ((0, 2), WeightNone), ((1, 0), WeightNone),
          ((1, 2), WeightNone), ((2, 0), WeightNone), ((2, 1), WeightNone)],
        node_group = [(0, 0), (1, 1), (2, 0)]\<rparr>"
    by (rule edge_weight_bounds[where s = "\<lambda>k. 1/3" and n = 3 and dyn = False and ts = 2
        and p = "1/2" and g = 0 and hg = 2 and p_in = "1/2" and p_out = "1/2" and ba = star_base
        and m = 1
        and GI = "\<lparr>nodes = [0, 1, 2],
          edges = [((0, 1), WeightNone), ((0, 2), WeightNone), ((1, 0), WeightNone),
            ((1, 2), WeightNone), ((2, 0), WeightNone), ((2, 1), WeightNone)],
          node_group = [(0, 0), (1, 1), (2, 0)]\<rparr>"
        and outI = "[]"
        and gI = 6, THEN conjunct2, THEN conjunct2, THEN conjunct2, THEN conjunct2, 
        THEN conjunct2, THEN conjunct2, THEN conjunct2, THEN conjunct2, 
        THEN conjunct2, THEN conjunct2,
        THEN conjunct1, THEN mp, OF n2])
  have c12: "carries {WeightNone} \<lparr>nodes = [0, 1, 2],
        edges = [((0, 1), WeightNone), ((1, 0), WeightNone), ((0, 2), WeightNone),
          ((2, 0), WeightNone)],
        node_group = []\<rparr>"
    by (rule edge_weight_bounds[where s = "\<lambda>k. 1/3" and n = 3 and dyn = False and ts = 2
        and p = "1/2" and g = 0 and hg = 2 and p_in = "1/2" and p_out = "1/2" and ba = star_base
        and m = 1
        and GJ = "\<lparr>nodes = [0, 1, 2],
          edges = [((0, 1), WeightNone), ((1, 0), WeightNone), ((0, 2), WeightNone),
            ((2, 0), WeightNone)],
          node_group = []\<rparr>"
        and outJ = "[]"
        and gJ = 0, THEN conjunct2, THEN conjunct2, THEN conjunct2, THEN conjunct2, 
        THEN conjunct2, THEN conjunct2, THEN conjunct2, THEN conjunct2, 
        THEN conjunct2, THEN conjunct2, THEN conjunct2,
        THEN conjunct1, THEN mp, OF n3])
  have c13: "seed_split 1 \<lparr>nodes = [0, 1, 2, 3],
        edges = [((0, 1), WeightNone), ((1, 0), WeightNone), ((2, 0), NoWeight),
          ((3, 0), NoWeight)],
        node_group = []\<rparr>"
    by (rule edge_weight_bounds[where s = "\<lambda>k. 1/3" and n = 4 and ts = 2 and g = 0
        and ba = star_base and m = 1
        and GK = "\<lparr>nodes = [0, 1, 2, 3],
          edges = [((0, 1), WeightNone), ((1, 0), WeightNone), ((2, 0), NoWeight),
            ((3, 0), NoWeight)],
          node_group = []\<rparr>"
        and outK = "[(1, 2, 1), (2, 3, 1)]"
        and gK = 2, THEN conjunct2, THEN conjunct2, THEN conjunct2, THEN conjunct2, 
        THEN conjunct2, THEN conjunct2, THEN conjunct2, THEN conjunct2, 
        THEN conjunct2, THEN conjunct2, THEN conjunct2, THEN conjunct2,
        THEN mp, OF n4])
  show ?thesis
    by (intro conjI u h1 h2 h3 v1 v2 nh hh s1 s2 s3 n1 n2 n3 n4 c1 c2 c3 c4 c6 c7 c8 c9 c10 c11 c12 c13)
qed

text \<open>
  C2 as stated fails: a draw of \<^verbatim>\<open>random.random()\<close> can be 0, and the static random
  generator then stores the weight 0 on the edge.
\<close>

theorem edge_weight_bounds_counterexample:
  "unit_stream (\<lambda>k. if k = 1 then 0 else 1/3) \<and>
   generate_random_graph (\<lambda>k. if k = 1 then 0 else 1/3) 2 False 1 (1/2) True 0
     = Inr (\<lparr>nodes = [0, 1], edges = [((0, 1), Weight 0), ((1, 0), Weight (1/3))],
             node_group = []\<rparr>, [], 4) \<and>
   \<not> positive_weights \<lparr>nodes = [0, 1], edges = [((0, 1), Weight 0), ((1, 0), Weight (1/3))],
             node_group = []\<rparr>"
proof (intro conjI)
  show "unit_stream (\<lambda>k. if k = 1 then 0 else 1/3)" by (simp add: unit_stream_def)
  show "generate_random_graph (\<lambda>k. if k = 1 then 0 else 1/3) 2 False 1 (1/2) True 0
     = Inr (\<lparr>nodes = [0, 1], edges = [((0, 1), Weight 0), ((1, 0), Weight (1/3))],
             node_group = []\<rparr>, [], 4)"
    by code_simp
  show "\<not> positive_weights \<lparr>nodes = [0, 1],
      edges = [((0, 1), Weight 0), ((1, 0), Weight (1/3))], node_group = []\<rparr>"
    by (simp add: positive_weights_def)
qed

end
